theory Spec2Isabelle
  imports Main "HOL-Library.Multiset"
begin

section \<open>The request gatekeeper of main.ts\<close>

text \<open>
  The development embeds the decision pipeline of \<^verbatim>\<open>main.ts\<close>: user-state resolution,
  free-tier rate limiting, billing, response caching and response composition.

  Conventions of the embedding.
  \<^item> A TypeScript \<^verbatim>\<open>number\<close> that holds a credit balance, a counter, a duration or an
    instant in milliseconds is an \<open>int\<close>.
  \<^item> A \<^verbatim>\<open>string\<close> is a \<open>string\<close>, one \<open>char\<close> per code unit; the line terminators
    that can occur are line feed and carriage return.
  \<^item> \<^verbatim>\<open>Result<T>\<close> is \<open>error + 'a\<close>, with \<open>Inl\<close> for \<^verbatim>\<open>err\<close> and \<open>Inr\<close> for \<^verbatim>\<open>ok\<close>.
  \<^item> An \<^verbatim>\<open>async\<close> function that touches the store takes the store and returns the store
    it leaves behind; \<^verbatim>\<open>Date.now()\<close> is the parameter \<open>now\<close>.
  \<^item> \<^verbatim>\<open>match(x).with(...)\<close> is a \<open>case\<close> expression. The chain ends either with
    \<^verbatim>\<open>.exhaustive()\<close> or with \<^verbatim>\<open>.otherwise(...)\<close>, the default branch, and its value is
    the value of the branch taken. The one chain that ends with both is in the charging
    step of \<^verbatim>\<open>handleRequest\<close>; see there.
  \<^item> An error that is thrown and not caught rejects the Promise of the \<^verbatim>\<open>async\<close>
    function: the function returns \<open>Inl\<close> of an \<open>exception\<close> instead of its value.
\<close>

subsection \<open>Types\<close>

datatype error = ErrKv | ErrUserNotFound | ErrInsufficientBalance

datatype responseFormat = Json | Html | Markdown

record stripeUser =
  access_token :: string
  balance :: int
  name :: "string option"
  email :: "string option"
  verified_email :: "string option"
  verified_user_access_token :: "string option"
  card_fingerprint :: "string option"
  client_reference_id :: "string option"

datatype userState =
    Anonymous string
  | Authenticated stripeUser
  | Insufficient_balance stripeUser

datatype rateLimitResult = Allowed int | Exceeded int

datatype 'a cacheResult = Hit 'a | Miss

record rateLimitData =
  count :: int
  resetTime :: int

subsection \<open>The key-value store\<close>

text \<open>
  The program keeps three families of entries in one Deno KV database, under the keys
  \<^verbatim>\<open>user:<token>\<close>, \<^verbatim>\<open>ratelimit:<id>\<close> and \<^verbatim>\<open>cache:v<version>:...\<close>. The three prefixes
  differ in their first character, so the families never share a key, and each family is
  read at one type only (\<^verbatim>\<open>kv.get<StripeUser>\<close>, \<^verbatim>\<open>kv.get<RateLimitData>\<close>,
  \<^verbatim>\<open>kv.get<T>\<close>). The store is therefore a record of three maps, indexed by the part of
  the key after the prefix (the whole key for the cache). A cache entry keeps the
  \<^verbatim>\<open>expireIn\<close> it was written with; expiry itself is the store's business and no step
  of this program.

  \<^verbatim>\<open>kv.get\<close> and \<^verbatim>\<open>kv.set\<close> can throw. \<open>get_throws\<close> and \<open>set_throws\<close> say for which
  (full) keys they do.
\<close>

record 'v kv =
  users :: "string \<rightharpoonup> stripeUser"
  ratelimits :: "string \<rightharpoonup> rateLimitData"
  cache :: "string \<rightharpoonup> ('v \<times> int)"
  get_throws :: "string \<Rightarrow> bool"
  set_throws :: "string \<Rightarrow> bool"

text \<open>
  A request as the handler sees it: the method, the parsed URL and the headers (by
  lower-case name). The context handed to the business handler carries the account, the
  store and the environment.
\<close>

record url =
  url_pathname :: string
  url_searchParams :: "(string \<times> string) list"

record request =
  req_method :: string
  url :: url
  headers :: "string \<rightharpoonup> string"

record requestData =
  rd_url :: url
  pathname :: string
  searchParams :: "(string \<times> string) list"
  authToken :: "string option"
  acceptHeader :: string

record handlerContext =
  ctx_user :: "stripeUser option"
  ctx_kv :: "string kv"
  ctx_env :: "string \<rightharpoonup> string"

text \<open>
  The business handler \<^verbatim>\<open>config.fetch\<close> may use and change the store it gets in the
  context. Of its response only the text is read. \<open>Inl msg\<close> stands for a handler (or a
  \<^verbatim>\<open>response.text()\<close>) that throws an error that prints as \<open>msg\<close>.
\<close>

record config =
  version :: int
  priceCredit :: int
  freeRatelimit :: int
  freeRateLimitResetSeconds :: int
  cacheSeconds :: "int option"
  fetch :: "request \<Rightarrow> handlerContext \<Rightarrow> (string + string) \<times> string kv"

definition userKey :: "string \<Rightarrow> string" where
  "userKey accessToken = ''user:'' @ accessToken"

definition rateLimitKey :: "string \<Rightarrow> string" where
  "rateLimitKey userId = ''ratelimit:'' @ userId"

subsection \<open>String operations of the platform\<close>

text \<open>
  \<^verbatim>\<open>String.prototype.startsWith\<close>, \<^verbatim>\<open>includes\<close>, \<^verbatim>\<open>replace\<close> with a string pattern (the
  first occurrence only), \<^verbatim>\<open>toLowerCase\<close> on the letters A to Z,
  \<^verbatim>\<open>split('.').pop()\<close>, \<^verbatim>\<open>Array.prototype.join\<close> and the decimal printing of an
  integer in a template literal.
\<close>

fun startsWith :: "string \<Rightarrow> string \<Rightarrow> bool" where
  "startsWith s [] = True"
| "startsWith [] (p # ps) = False"
| "startsWith (c # cs) (p # ps) = (c = p \<and> startsWith cs ps)"

fun stringIncludes :: "string \<Rightarrow> string \<Rightarrow> bool" where
  "stringIncludes [] sub = (sub = [])"
| "stringIncludes (c # cs) sub = (startsWith (c # cs) sub \<or> stringIncludes cs sub)"

fun replaceFirst :: "string \<Rightarrow> string \<Rightarrow> string \<Rightarrow> string" where
  "replaceFirst [] pat rep = (if pat = [] then rep else [])"
| "replaceFirst (c # cs) pat rep =
     (if startsWith (c # cs) pat then rep @ drop (length pat) (c # cs)
      else c # replaceFirst cs pat rep)"

definition toLowerChar :: "char \<Rightarrow> char" where
  "toLowerChar c =
     (case map_of (zip ''ABCDEFGHIJKLMNOPQRSTUVWXYZ'' ''abcdefghijklmnopqrstuvwxyz'') c of
        Some l \<Rightarrow> l
      | None \<Rightarrow> c)"

definition toLowerCase :: "string \<Rightarrow> string" where
  "toLowerCase s = map toLowerChar s"

definition lastSegment :: "char \<Rightarrow> string \<Rightarrow> string" where
  "lastSegment sep s = rev (takeWhile (\<lambda>c. c \<noteq> sep) (rev s))"

fun joinWith :: "string \<Rightarrow> string list \<Rightarrow> string" where
  "joinWith sep [] = []"
| "joinWith sep [x] = x"
| "joinWith sep (x # y # ys) = x @ sep @ joinWith sep (y # ys)"

definition digitChar :: "nat \<Rightarrow> char" where
  "digitChar d = ''0123456789'' ! d"

fun digitsOf :: "nat \<Rightarrow> string" where
  "digitsOf n = (if n < 10 then [digitChar n] else digitsOf (n div 10) @ [digitChar (n mod 10)])"

declare digitsOf.simps [simp del]

definition numberToString :: "int \<Rightarrow> string" where
  "numberToString i = (if i < 0 then ''-'' @ digitsOf (nat (- i)) else digitsOf (nat i))"

text \<open>
  \<^verbatim>\<open>Array.prototype.sort\<close> is stable. With a consistent comparator its result is the one
  stable insertion sort gives. The comparator of \<^verbatim>\<open>createCacheKey\<close> looks at the keys of
  the entries only; it is \<^verbatim>\<open>String.prototype.localeCompare\<close>, the collation of the
  host, which is a parameter here.
\<close>

fun insertEntry ::
  "(string \<Rightarrow> string \<Rightarrow> int) \<Rightarrow> string \<times> string \<Rightarrow> (string \<times> string) list
     \<Rightarrow> (string \<times> string) list" where
  "insertEntry localeCompare x [] = [x]"
| "insertEntry localeCompare x (y # ys) =
     (if localeCompare (fst x) (fst y) \<le> 0 then x # y # ys
      else y # insertEntry localeCompare x ys)"

definition sortEntries ::
  "(string \<Rightarrow> string \<Rightarrow> int) \<Rightarrow> (string \<times> string) list \<Rightarrow> (string \<times> string) list" where
  "sortEntries localeCompare entries = foldr (insertEntry localeCompare) entries []"

text \<open>
  A concrete consistent comparator, by character code, for running the functions on
  examples.
\<close>

fun compareCodes :: "string \<Rightarrow> string \<Rightarrow> int" where
  "compareCodes [] [] = 0"
| "compareCodes [] (b # bs) = - 1"
| "compareCodes (a # as) [] = 1"
| "compareCodes (a # as) (b # bs) =
     (if (of_char a :: nat) < of_char b then - 1
      else if (of_char b :: nat) < of_char a then 1
      else compareCodes as bs)"

text \<open>
  What the sort needs of the comparator on the keys of a query: any two keys are
  comparable and the comparison is transitive (\<open>consistentOn\<close>); and keys that compare
  equal are the same string (\<open>tiesAreEqualOn\<close>). \<open>keyOrder\<close> is the order of the
  entries by their keys.
\<close>

definition consistentOn :: "(string \<Rightarrow> string \<Rightarrow> int) \<Rightarrow> string list \<Rightarrow> bool" where
  "consistentOn localeCompare keys =
     ((\<forall>a\<in>set keys. \<forall>b\<in>set keys. localeCompare a b \<le> 0 \<or> localeCompare b a \<le> 0)
      \<and> (\<forall>a\<in>set keys. \<forall>b\<in>set keys. \<forall>c\<in>set keys.
             localeCompare a b \<le> 0 \<and> localeCompare b c \<le> 0 \<longrightarrow> localeCompare a c \<le> 0))"

definition tiesAreEqualOn :: "(string \<Rightarrow> string \<Rightarrow> int) \<Rightarrow> string list \<Rightarrow> bool" where
  "tiesAreEqualOn localeCompare keys =
     (\<forall>a\<in>set keys. \<forall>b\<in>set keys.
        localeCompare a b \<le> 0 \<and> localeCompare b a \<le> 0 \<longrightarrow> a = b)"

abbreviation keyOrder :: "(string \<Rightarrow> string \<Rightarrow> int) \<Rightarrow> string \<times> string \<Rightarrow> string \<times> string \<Rightarrow> bool" where
  "keyOrder lc a b \<equiv> lc (fst a) (fst b) \<le> 0"

subsection \<open>Pure functions\<close>

definition parseRequestData :: "request \<Rightarrow> requestData" where
  "parseRequestData request' =
     \<lparr>rd_url = url request',
      pathname = url_pathname (url request'),
      searchParams = url_searchParams (url request'),
      authToken =
        (case headers request' ''authorization'' of
           None \<Rightarrow> None
         | Some authHeader \<Rightarrow>
             let t = replaceFirst authHeader ''Bearer '' [] in
             if t = [] then None else Some t),
      acceptHeader =
        (case headers request' ''accept'' of None \<Rightarrow> [] | Some a \<Rightarrow> a)\<rparr>"

definition getResponseFormat :: "requestData \<Rightarrow> responseFormat" where
  "getResponseFormat requestData' =
     (let ext = toLowerCase (lastSegment (CHR ''.'') (pathname requestData')) in
      if ext = ''html'' then Html
      else if ext = ''md'' \<or> ext = ''markdown'' then Markdown
      else if stringIncludes (acceptHeader requestData') ''text/html'' then Html
      else if stringIncludes (acceptHeader requestData') ''text/markdown'' then Markdown
      else Json)"

fun formatName :: "responseFormat \<Rightarrow> string" where
  "formatName Json = ''json''"
| "formatName Html = ''html''"
| "formatName Markdown = ''markdown''"

definition createCacheKey ::
  "(string \<Rightarrow> string \<Rightarrow> int) \<Rightarrow> config \<Rightarrow> string \<Rightarrow> (string \<times> string) list
     \<Rightarrow> responseFormat \<Rightarrow> string" where
  "createCacheKey localeCompare config pathname' searchParams' format =
     (let sortedParams =
            joinWith ''&''
              (map (\<lambda>(key, val). key @ ''='' @ val) (sortEntries localeCompare searchParams'))
      in ''cache:v'' @ numberToString (version config) @ '':'' @ pathname' @ '':''
           @ sortedParams @ '':'' @ formatName format)"

text \<open>
  \<^verbatim>\<open>markdownToHtml\<close> is a chain of six global regular-expression replacements.
  \<^item> \<^verbatim>\<open>/^# (.*)/gm\<close> (and the ones for \<^verbatim>\<open>##\<close> and \<^verbatim>\<open>###\<close>): at the start of the text or
    right after a line terminator, the marker followed by the rest of the line, which
    is the captured group. \<open>replaceHeading\<close> scans the text with a flag for "at the start
    of a line".
  \<^item> \<^verbatim>\<open>/\*\*(.*?)\*\*/g\<close> and \<^verbatim>\<open>/\*(.*?)\*/g\<close>: the delimiter, the shortest run of
    characters other than line terminators that is followed by the delimiter (the
    group, found by \<open>lazyUntil\<close>), and the delimiter. Where no match starts, the scan
    moves on by one character.
  \<^item> \<^verbatim>\<open>/\n/g\<close>: every line feed.
  The replacement text is the opening tag, the group and the closing tag.
\<close>

definition lineTerminator :: "char \<Rightarrow> bool" where
  "lineTerminator c = (c = CHR 0x0A \<or> c = CHR 0x0D)"

function replaceHeading :: "string \<Rightarrow> string \<Rightarrow> string \<Rightarrow> bool \<Rightarrow> string \<Rightarrow> string" where
  "replaceHeading marker opn cls atLineStart [] = []"
| "replaceHeading marker opn cls atLineStart (c # cs) =
     (if atLineStart \<and> marker \<noteq> [] \<and> startsWith (c # cs) marker
      then opn @ takeWhile (\<lambda>x. \<not> lineTerminator x) (drop (length marker) (c # cs)) @ cls
             @ replaceHeading marker opn cls False
                 (dropWhile (\<lambda>x. \<not> lineTerminator x) (drop (length marker) (c # cs)))
      else c # replaceHeading marker opn cls (lineTerminator c) cs)"
  by pat_completeness auto
termination
proof (relation "measure (\<lambda>(marker, opn, cls, atLineStart, s). length s)")
  show "wf (measure (\<lambda>(marker, opn, cls, atLineStart, s). length s))"
    by simp
next
  fix marker opn cls :: string and atLineStart :: bool and c :: char and cs :: string
  assume "atLineStart \<and> marker \<noteq> [] \<and> startsWith (c # cs) marker"
  then have "0 < length marker"
    by simp
  moreover have
    "length (dropWhile (\<lambda>x. \<not> lineTerminator x) (drop (length marker) (c # cs)))
       \<le> length (drop (length marker) (c # cs))"
    by (rule length_dropWhile_le)
  ultimately show
    "((marker, opn, cls, False,
       dropWhile (\<lambda>x. \<not> lineTerminator x) (drop (length marker) (c # cs))),
      (marker, opn, cls, atLineStart, c # cs))
     \<in> measure (\<lambda>(marker, opn, cls, atLineStart, s). length s)"
    by (cases "length marker") auto
next
  fix marker opn cls :: string and atLineStart :: bool and c :: char and cs :: string
  show "((marker, opn, cls, lineTerminator c, cs), (marker, opn, cls, atLineStart, c # cs))
     \<in> measure (\<lambda>(marker, opn, cls, atLineStart, s). length s)"
    by simp
qed

fun lazyUntil :: "string \<Rightarrow> string \<Rightarrow> (string \<times> string) option" where
  "lazyUntil delim [] = (if delim = [] then Some ([], []) else None)"
| "lazyUntil delim (c # cs) =
     (if startsWith (c # cs) delim then Some ([], drop (length delim) (c # cs))
      else if lineTerminator c then None
      else (case lazyUntil delim cs of
              None \<Rightarrow> None
            | Some (g, rest) \<Rightarrow> Some (c # g, rest)))"

function replaceDelimited :: "string \<Rightarrow> string \<Rightarrow> string \<Rightarrow> string \<Rightarrow> string" where
  "replaceDelimited delim opn cls [] = []"
| "replaceDelimited delim opn cls (c # cs) =
     (if delim \<noteq> [] \<and> startsWith (c # cs) delim
      then (case lazyUntil delim (drop (length delim) (c # cs)) of
              Some (g, rest) \<Rightarrow> opn @ g @ cls @ replaceDelimited delim opn cls rest
            | None \<Rightarrow> c # replaceDelimited delim opn cls cs)
      else c # replaceDelimited delim opn cls cs)"
  by pat_completeness auto
termination
proof (relation "measure (\<lambda>(delim, opn, cls, s). length s)")
  show "wf (measure (\<lambda>(delim, opn, cls, s). length s))"
    by simp
next
  fix delim opn cls :: string and c :: char and cs g rest :: string
    and x2 :: "string \<times> string"
  assume d: "delim \<noteq> [] \<and> startsWith (c # cs) delim"
    and l: "lazyUntil delim (drop (length delim) (c # cs)) = Some x2"
    and x: "(g, rest) = x2"
  have len: "lazyUntil delim s = Some (h, r) \<Longrightarrow> length r \<le> length s" for s h r
    by (induction s arbitrary: h) (auto split: if_splits option.splits)
  from l x have "length rest \<le> length (drop (length delim) (c # cs))"
    using len [of "drop (length delim) (c # cs)" g rest] by simp
  moreover from d have "0 < length delim"
    by simp
  ultimately show "((delim, opn, cls, rest), (delim, opn, cls, c # cs))
      \<in> measure (\<lambda>(delim, opn, cls, s). length s)"
    by (cases "length delim") auto
qed simp_all

definition replaceNewline :: "string \<Rightarrow> string" where
  "replaceNewline s = concat (map (\<lambda>c. if c = CHR 0x0A then ''<br>'' else [c]) s)"

definition markdownToHtml :: "string \<Rightarrow> string" where
  "markdownToHtml markdown =
     replaceNewline
      (replaceDelimited ''*'' ''<em>'' ''</em>''
        (replaceDelimited ''**'' ''<strong>'' ''</strong>''
          (replaceHeading ''### '' ''<h3>'' ''</h3>'' True
            (replaceHeading ''## '' ''<h2>'' ''</h2>'' True
              (replaceHeading ''# '' ''<h1>'' ''</h1>'' True markdown)))))"

text \<open>
  A run of ordinary characters on one line: no line terminator and no asterisk.
\<close>

definition inlineText :: "string \<Rightarrow> bool" where
  "inlineText t = (\<forall>c\<in>set t. \<not> lineTerminator c \<and> c \<noteq> CHR ''*'')"

definition createCorsHeaders :: "(string \<times> string) list" where
  "createCorsHeaders =
     [(''Access-Control-Allow-Origin'', ''*''),
      (''Access-Control-Allow-Methods'', ''GET, POST, PUT, DELETE, OPTIONS''),
      (''Access-Control-Allow-Headers'', ''Content-Type, Authorization'')]"

subsection \<open>Effect functions\<close>

definition getUserByToken :: "'v kv \<Rightarrow> string \<Rightarrow> error + stripeUser option" where
  "getUserByToken kv accessToken =
     (if get_throws kv (userKey accessToken) then Inl ErrKv
      else Inr (users kv accessToken))"

text \<open>
  \<^verbatim>\<open>getRateLimitData\<close>: a missing record, or one whose \<open>resetTime\<close> lies strictly before
  the current time, reads as a fresh record with count 0 and a reset time one window
  (\<open>freeRateLimitResetSeconds\<close> seconds, in the clock's milliseconds) from now.
\<close>

definition getRateLimitData ::
  "config \<Rightarrow> 'v kv \<Rightarrow> int \<Rightarrow> string \<Rightarrow> error + rateLimitData" where
  "getRateLimitData config kv now userId =
     (if get_throws kv (rateLimitKey userId) then Inl ErrKv
      else
        let currentTime = now;
            resetTime' = currentTime + freeRateLimitResetSeconds config * 1000
        in (case ratelimits kv userId of
              None \<Rightarrow> Inr \<lparr>count = 0, resetTime = resetTime'\<rparr>
            | Some v \<Rightarrow>
                if currentTime > resetTime v
                then Inr \<lparr>count = 0, resetTime = resetTime'\<rparr>
                else Inr v))"

definition updateRateLimit ::
  "'v kv \<Rightarrow> string \<Rightarrow> rateLimitData \<Rightarrow> (error + unit) \<times> 'v kv" where
  "updateRateLimit kv userId rateLimitData' =
     (if set_throws kv (rateLimitKey userId) then (Inl ErrKv, kv)
      else (Inr (), kv\<lparr>ratelimits := (ratelimits kv)(userId \<mapsto> rateLimitData')\<rparr>))"

definition checkFreeRateLimit ::
  "config \<Rightarrow> 'v kv \<Rightarrow> int \<Rightarrow> string \<Rightarrow> (error + rateLimitResult) \<times> 'v kv" where
  "checkFreeRateLimit config kv now clientId =
     (case getRateLimitData config kv now clientId of
        Inl e \<Rightarrow> (Inl e, kv)
      | Inr rateLimitData' \<Rightarrow>
          if count rateLimitData' \<ge> freeRatelimit config
          then (Inr (Exceeded (resetTime rateLimitData')), kv)
          else
            let updatedData = rateLimitData'\<lparr>count := count rateLimitData' + 1\<rparr>
            in (case updateRateLimit kv clientId updatedData of
                  (Inl e, kv') \<Rightarrow> (Inl e, kv')
                | (Inr u, kv') \<Rightarrow>
                    (Inr (Allowed (freeRatelimit config - count updatedData)), kv')))"

definition checkRateLimit ::
  "config \<Rightarrow> 'v kv \<Rightarrow> int \<Rightarrow> userState \<Rightarrow> (error + rateLimitResult) \<times> 'v kv" where
  "checkRateLimit config kv now userState' =
     (case userState' of
        Authenticated user \<Rightarrow>
          if balance user > 0 then (Inr (Allowed (balance user)), kv)
          else checkFreeRateLimit config kv now (access_token user)
      | Anonymous clientId \<Rightarrow> checkFreeRateLimit config kv now clientId
      | Insufficient_balance user \<Rightarrow> checkFreeRateLimit config kv now (access_token user))"

definition chargeUser :: "'v kv \<Rightarrow> string \<Rightarrow> int \<Rightarrow> (error + stripeUser) \<times> 'v kv" where
  "chargeUser kv userId amount =
     (case getUserByToken kv userId of
        Inl e \<Rightarrow> (Inl e, kv)
      | Inr None \<Rightarrow> (Inl ErrUserNotFound, kv)
      | Inr (Some user) \<Rightarrow>
          if balance user < amount then (Inl ErrInsufficientBalance, kv)
          else
            let updatedUser = user\<lparr>balance := balance user - amount\<rparr>
            in if set_throws kv (userKey userId) then (Inl ErrKv, kv)
               else (Inr updatedUser, kv\<lparr>users := (users kv)(userId \<mapsto> updatedUser)\<rparr>))"

text \<open>
  \<^verbatim>\<open>getFromCache<T>\<close> tests the stored value with JavaScript's truthiness. A function
  that is generic in \<^verbatim>\<open>T\<close> gets the conversion to a boolean for \<^verbatim>\<open>T\<close> as its first
  argument. An absent key reads as \<^verbatim>\<open>null\<close>, which is falsy.
\<close>

definition toBoolean_string :: "string \<Rightarrow> bool" where
  "toBoolean_string s = (s \<noteq> [])"

datatype jsvalue = JString string | JNumber int | JBoolean bool | JNull

fun toBoolean_jsvalue :: "jsvalue \<Rightarrow> bool" where
  "toBoolean_jsvalue (JString s) = (s \<noteq> [])"
| "toBoolean_jsvalue (JNumber n) = (n \<noteq> 0)"
| "toBoolean_jsvalue (JBoolean b) = b"
| "toBoolean_jsvalue JNull = False"

definition getFromCache ::
  "('v \<Rightarrow> bool) \<Rightarrow> 'v kv \<Rightarrow> string \<Rightarrow> error + 'v cacheResult" where
  "getFromCache toBoolean kv cacheKey =
     (if get_throws kv cacheKey then Inl ErrKv
      else (case cache kv cacheKey of
              None \<Rightarrow> Inr Miss
            | Some (v, expireIn) \<Rightarrow> if toBoolean v then Inr (Hit v) else Inr Miss))"

definition setCache ::
  "config \<Rightarrow> string kv \<Rightarrow> string \<Rightarrow> string \<Rightarrow> (error + unit) \<times> string kv" where
  "setCache config kv cacheKey v =
     (case cacheSeconds config of
        None \<Rightarrow> (Inr (), kv)
      | Some secs \<Rightarrow>
          if secs = 0 \<or> secs \<le> 0 then (Inr (), kv)
          else if set_throws kv cacheKey then (Inl ErrKv, kv)
          else (Inr (), kv\<lparr>cache := (cache kv)(cacheKey \<mapsto> (v, secs * 1000))\<rparr>))"

subsection \<open>Response creators\<close>

text \<open>
  A response is its status, its body and its headers in the order of the object literal.
  The body of a payment-required response is \<^verbatim>\<open>JSON.stringify\<close> of an object; the object
  is kept as it is. \<^verbatim>\<open>env.STRIPE_PAYMENT_LINK\<close> may be undefined.
\<close>

datatype cacheStatus = HIT | MISS

fun cacheStatusName :: "cacheStatus \<Rightarrow> string" where
  "cacheStatusName HIT = ''HIT''"
| "cacheStatusName MISS = ''MISS''"

record paymentRequiredBody =
  body_error :: string
  message :: string
  payment_link :: "string option"
  body_status :: int

datatype responseBody = NoBody | TextBody string | JsonBody paymentRequiredBody

record response =
  status :: int
  content :: responseBody
  responseHeaders :: "(string \<times> string) list"

definition createPaymentRequiredResponse :: "(string \<rightharpoonup> string) \<Rightarrow> string \<Rightarrow> response" where
  "createPaymentRequiredResponse env message' =
     (let responseBody' =
            \<lparr>body_error = ''Payment Required'',
             message = message',
             payment_link = env ''STRIPE_PAYMENT_LINK'',
             body_status = 402\<rparr>
      in \<lparr>status = 402,
          content = JsonBody responseBody',
          responseHeaders = (''Content-Type'', ''application/json'') # createCorsHeaders\<rparr>)"

definition createSuccessResponse :: "string \<Rightarrow> responseFormat \<Rightarrow> cacheStatus \<Rightarrow> response" where
  "createSuccessResponse responseText format cacheStatus' =
     (let contentType =
            (case format of
               Html \<Rightarrow> ''text/html''
             | Markdown \<Rightarrow> ''text/markdown''
             | Json \<Rightarrow> ''application/json'');
          formattedText =
            (case format of
               Html \<Rightarrow> markdownToHtml responseText
             | _ \<Rightarrow> responseText)
      in \<lparr>status = 200,
          content = TextBody formattedText,
          responseHeaders =
            (''Content-Type'', contentType) # (''X-Cache'', cacheStatusName cacheStatus')
              # createCorsHeaders\<rparr>)"

definition createOptionsResponse :: response where
  "createOptionsResponse =
     \<lparr>status = 200, content = NoBody, responseHeaders = createCorsHeaders\<rparr>"

subsection \<open>User state determination\<close>

text \<open>
  \<^verbatim>\<open>!requestData.authToken\<close> holds for an absent token and for the empty string.
\<close>

definition determineUserState :: "'v kv \<Rightarrow> requestData \<Rightarrow> userState" where
  "determineUserState kv requestData' =
     (case authToken requestData' of
        None \<Rightarrow> Anonymous ''anonymous''
      | Some token \<Rightarrow>
          if token = [] then Anonymous ''anonymous''
          else (case getUserByToken kv token of
                  Inl e \<Rightarrow> Anonymous token
                | Inr None \<Rightarrow> Anonymous token
                | Inr (Some user) \<Rightarrow>
                    if balance user \<le> 0 then Insufficient_balance user
                    else Authenticated user))"

subsection \<open>The main request handler\<close>

text \<open>
  \<^verbatim>\<open>handleRequest\<close>, with the store threaded through its steps in the order of the
  \<^verbatim>\<open>await\<close>s. An early \<^verbatim>\<open>return\<close> is a branch that ends with the response. The result
  of \<^verbatim>\<open>setCache\<close> is not looked at. The function is written in two parts:
  \<open>handleCacheMiss\<close> is everything below the cache check, from
  \<^verbatim>\<open>// Determine user state\<close> to the end, and \<open>handleRequest\<close> is the part above it.

  The charging step is
  \<^verbatim>\<open>await match(userState).with({ kind: 'authenticated' }, ...).otherwise(...).exhaustive()\<close>.
  The value of \<^verbatim>\<open>match(userState).with(...).otherwise(...)\<close> is the value of the branch
  taken, here a Promise: of \<^verbatim>\<open>chargeUser\<close>, which has been called by then, for an
  authenticated user with credit, and an already resolved one otherwise. The step then
  calls \<^verbatim>\<open>.exhaustive()\<close> on that Promise. A Promise has no such member, so the call
  throws a \<^verbatim>\<open>TypeError\<close>. The step is outside the \<^verbatim>\<open>try\<close> block, so the error rejects
  the Promise of \<^verbatim>\<open>handleRequest\<close>. The charge that is under way is not stopped by
  that: the store that is returned is the one \<^verbatim>\<open>chargeUser\<close> leaves behind.
\<close>

datatype exception = TypeError

definition exhaustive_of_promise :: "'a \<Rightarrow> exception + 'a" where
  "exhaustive_of_promise promise = Inl TypeError"

definition rateLimitMessage :: "config \<Rightarrow> string" where
  "rateLimitMessage config =
     ''Free rate limit exceeded. Limit: '' @ numberToString (freeRatelimit config)
       @ '' requests per '' @ numberToString (freeRateLimitResetSeconds config)
       @ '' seconds.''"

definition handleCacheMiss ::
  "config \<Rightarrow> string kv \<Rightarrow> (string \<rightharpoonup> string) \<Rightarrow> int \<Rightarrow> request \<Rightarrow> requestData
     \<Rightarrow> responseFormat \<Rightarrow> string \<Rightarrow> (exception + response) \<times> string kv" where
  "handleCacheMiss config kv env now request' requestData' responseFormat' cacheKey =
     (let userState' = determineUserState kv requestData' in
      (case checkRateLimit config kv now userState' of
         (Inl e, kv1) \<Rightarrow>
           (Inr (createPaymentRequiredResponse env ''Rate limit check failed''), kv1)
       | (Inr (Exceeded resetTime'), kv1) \<Rightarrow>
           (Inr (createPaymentRequiredResponse env (rateLimitMessage config)), kv1)
       | (Inr (Allowed remaining), kv1) \<Rightarrow>
           (case (case userState' of
                    Authenticated user \<Rightarrow>
                      if balance user > 0
                      then (case chargeUser kv1 (access_token user) (priceCredit config) of
                              (Inl e, kv2) \<Rightarrow> (Inl e, kv2)
                            | (Inr charged, kv2) \<Rightarrow> (Inr (Some charged), kv2))
                      else (Inr (Some user), kv1)
                  | _ \<Rightarrow> (Inr None, kv1)) of
              (promise, kv2) \<Rightarrow>
                (case exhaustive_of_promise promise of
                   Inl thrown \<Rightarrow> (Inl thrown, kv2)
                 | Inr (Inl e) \<Rightarrow>
                     (Inr (createPaymentRequiredResponse env
                        ''Insufficient balance. Please add funds to your account.''), kv2)
                 | Inr (Inr chargedUser) \<Rightarrow>
                     let context' = \<lparr>ctx_user = chargedUser, ctx_kv = kv2, ctx_env = env\<rparr>
                     in (case fetch config request' context' of
                           (Inl err, kv3) \<Rightarrow>
                             (Inr (createPaymentRequiredResponse env (''Handler error: '' @ err)),
                              kv3)
                         | (Inr responseText, kv3) \<Rightarrow>
                             (Inr (createSuccessResponse responseText responseFormat' MISS),
                              snd (setCache config kv3 cacheKey responseText)))))))"

definition handleRequest ::
  "(string \<Rightarrow> string \<Rightarrow> int) \<Rightarrow> config \<Rightarrow> string kv \<Rightarrow> (string \<rightharpoonup> string) \<Rightarrow> int \<Rightarrow> request
     \<Rightarrow> (exception + response) \<times> string kv" where
  "handleRequest localeCompare config kv env now request' =
     (if req_method request' = ''OPTIONS'' then (Inr createOptionsResponse, kv)
      else
        let requestData' = parseRequestData request';
            responseFormat' = getResponseFormat requestData';
            cacheKey =
              createCacheKey localeCompare config (pathname requestData')
                (searchParams requestData') responseFormat'
        in (case getFromCache toBoolean_string kv cacheKey of
              Inr (Hit v) \<Rightarrow> (Inr (createSuccessResponse v responseFormat' HIT), kv)
            | _ \<Rightarrow>
                handleCacheMiss config kv env now request' requestData' responseFormat'
                  cacheKey))"

text \<open>The cache key that \<^verbatim>\<open>handleRequest\<close> makes for a request.\<close>

abbreviation requestCacheKey :: "(string \<Rightarrow> string \<Rightarrow> int) \<Rightarrow> config \<Rightarrow> request \<Rightarrow> string" where
  "requestCacheKey localeCompare config request' \<equiv>
     createCacheKey localeCompare config (pathname (parseRequestData request'))
       (searchParams (parseRequestData request')) (getResponseFormat (parseRequestData request'))"

subsection \<open>Default configuration and example data\<close>

definition helloWorld :: string where
  \<open>helloWorld = ''{"message":"Hello, world!"}''\<close>

definition defaultConfig :: config where
  "defaultConfig =
     \<lparr>version = 1,
      priceCredit = 1,
      freeRatelimit = 10,
      freeRateLimitResetSeconds = 3600,
      cacheSeconds = Some 300,
      fetch = (\<lambda>request' context'. (Inr helloWorld, ctx_kv context'))\<rparr>"

text \<open>An empty store that never throws, an account with a balance, a request.\<close>

definition emptyKv :: "'v kv" where
  "emptyKv =
     \<lparr>users = Map.empty, ratelimits = Map.empty, cache = Map.empty,
      get_throws = (\<lambda>k. False), set_throws = (\<lambda>k. False)\<rparr>"

definition account :: "string \<Rightarrow> int \<Rightarrow> stripeUser" where
  "account token credits =
     \<lparr>access_token = token, balance = credits, name = None, email = None,
      verified_email = None, verified_user_access_token = None,
      card_fingerprint = None, client_reference_id = None\<rparr>"

definition getRequest :: "string \<Rightarrow> (string \<times> string) list \<Rightarrow> string option \<Rightarrow> request" where
  "getRequest path query bearer =
     \<lparr>req_method = ''GET'',
      url = \<lparr>url_pathname = path, url_searchParams = query\<rparr>,
      headers = (case bearer of
                   None \<Rightarrow> Map.empty
                 | Some token \<Rightarrow> [''authorization'' \<mapsto> ''Bearer '' @ token])\<rparr>"

text \<open>
  A store in which the free tier is used up for the identities \<open>anonymous\<close> and \<open>tok\<close>,
  and the account \<open>tok\<close> has no credit left.
\<close>

definition exhaustedKv :: "string kv" where
  "exhaustedKv =
     emptyKv\<lparr>users := [''tok'' \<mapsto> account ''tok'' 0],
             ratelimits := [''anonymous'' \<mapsto> \<lparr>count = 10, resetTime = 9000\<rparr>,
                            ''tok'' \<mapsto> \<lparr>count = 10, resetTime = 9000\<rparr>]\<rparr>"

text \<open>
  A configuration with a free tier of 2 requests per 3600 seconds and no caching, and the
  store that holds nothing but the rate-limit record of the identity \<open>anonymous\<close>.
\<close>

definition twoPerHourConfig :: config where
  "twoPerHourConfig = defaultConfig\<lparr>freeRatelimit := 2, cacheSeconds := None\<rparr>"

definition anonymousCount :: "int \<Rightarrow> int \<Rightarrow> string kv" where
  "anonymousCount n reset =
     emptyKv\<lparr>ratelimits := [''anonymous'' \<mapsto> \<lparr>count = n, resetTime = reset\<rparr>]\<rparr>"

section \<open>Verified properties\<close>

subsection \<open>Running the handler on example requests\<close>

lemma numberToString_examples:
  "numberToString 1 = ''1''" "numberToString 2 = ''2''" "numberToString 3600 = ''3600''"
  by (simp_all add: numberToString_def digitsOf.simps digitChar_def)

lemma getRequest_parsed:
  "req_method (getRequest path query bearer) \<noteq> ''OPTIONS''"
  "pathname (parseRequestData (getRequest path query bearer)) = path"
  "searchParams (parseRequestData (getRequest path query bearer)) = query"
  "acceptHeader (parseRequestData (getRequest path query bearer)) = []"
  "authToken (parseRequestData (getRequest path query None)) = None"
  "authToken (parseRequestData (getRequest path query (Some ''tok''))) = Some ''tok''"
  by (simp_all add: parseRequestData_def getRequest_def Let_def split: option.splits)

lemma getRequest_x_format:
  "getResponseFormat (parseRequestData (getRequest ''/x'' query bearer)) = Json"
  by (simp add: getResponseFormat_def getRequest_parsed lastSegment_def toLowerCase_def
      toLowerChar_def)

lemma key_x:
  "version config = 1 \<Longrightarrow>
     createCacheKey compareCodes config ''/x'' [] Json = ''cache:v1:/x::json''"
  by (simp add: createCacheKey_def sortEntries_def numberToString_examples)

lemma handleRequest_miss:
  assumes "req_method request' \<noteq> ''OPTIONS''"
    and "\<And>v. getFromCache toBoolean_string kv
           (createCacheKey localeCompare config
              (pathname (parseRequestData request'))
              (searchParams (parseRequestData request'))
              (getResponseFormat (parseRequestData request'))) \<noteq> Inr (Hit v)"
  shows "handleRequest localeCompare config kv env now request'
     = handleCacheMiss config kv env now request' (parseRequestData request')
         (getResponseFormat (parseRequestData request'))
         (createCacheKey localeCompare config
              (pathname (parseRequestData request'))
              (searchParams (parseRequestData request'))
              (getResponseFormat (parseRequestData request')))"
  using assms
  by (auto simp: handleRequest_def Let_def split: sum.splits cacheResult.splits)

lemma exhausted_402:
  assumes "authToken rd = None \<or> authToken rd = Some ''tok''"
  shows "\<exists>resp. fst (handleCacheMiss defaultConfig exhaustedKv env 5000 r rd f k) = Inr resp
           \<and> status resp = 402"
  using assms
  by (auto simp: handleCacheMiss_def determineUserState_def getUserByToken_def
      account_def checkRateLimit_def checkFreeRateLimit_def getRateLimitData_def
      exhaustedKv_def emptyKv_def defaultConfig_def createPaymentRequiredResponse_def Let_def)

subsection \<open>Billing\<close>

text \<open>
  Claim C2. \<^verbatim>\<open>chargeUser\<close> reads the account again. When the store answers: an account
  whose balance covers the amount is written back with \<open>balance - amount\<close>, which is
  never negative, and the updated account is returned; an account whose balance is
  smaller gives the error "Insufficient balance" and the store stays as it was; a
  missing account gives the error "User not found".
\<close>

theorem chargeUser_outcomes:
  "(\<forall>user. \<not> get_throws kv (userKey userId) \<and> \<not> set_throws kv (userKey userId)
        \<and> users kv userId = Some user \<and> balance user \<ge> amount \<longrightarrow>
        chargeUser kv userId amount
          = (Inr (user\<lparr>balance := balance user - amount\<rparr>),
             kv\<lparr>users := (users kv)(userId \<mapsto> user\<lparr>balance := balance user - amount\<rparr>)\<rparr>)
        \<and> 0 \<le> balance user - amount)
   \<and> (\<forall>user. \<not> get_throws kv (userKey userId)
        \<and> users kv userId = Some user \<and> balance user < amount \<longrightarrow>
        chargeUser kv userId amount = (Inl ErrInsufficientBalance, kv))
   \<and> (\<not> get_throws kv (userKey userId) \<and> users kv userId = None \<longrightarrow>
        chargeUser kv userId amount = (Inl ErrUserNotFound, kv))"
  by (simp add: chargeUser_def getUserByToken_def Let_def)

text \<open>
  A balance of 20 charged 10 becomes 10, charged again becomes 0, and a third charge is
  refused; a balance of 5 charged 10 stays 5; without an account the charge fails.
\<close>

theorem chargeUser_outcomes_witness:
  "chargeUser (emptyKv\<lparr>users := [''tok'' \<mapsto> account ''tok'' 20]\<rparr> :: string kv) ''tok'' 10
     = (Inr (account ''tok'' 10), emptyKv\<lparr>users := [''tok'' \<mapsto> account ''tok'' 10]\<rparr>)
   \<and> chargeUser (emptyKv\<lparr>users := [''tok'' \<mapsto> account ''tok'' 10]\<rparr> :: string kv) ''tok'' 10
     = (Inr (account ''tok'' 0), emptyKv\<lparr>users := [''tok'' \<mapsto> account ''tok'' 0]\<rparr>)
   \<and> chargeUser (emptyKv\<lparr>users := [''tok'' \<mapsto> account ''tok'' 0]\<rparr> :: string kv) ''tok'' 10
     = (Inl ErrInsufficientBalance, emptyKv\<lparr>users := [''tok'' \<mapsto> account ''tok'' 0]\<rparr>)
   \<and> chargeUser (emptyKv\<lparr>users := [''tok'' \<mapsto> account ''tok'' 5]\<rparr> :: string kv) ''tok'' 10
     = (Inl ErrInsufficientBalance, emptyKv\<lparr>users := [''tok'' \<mapsto> account ''tok'' 5]\<rparr>)
   \<and> chargeUser (emptyKv :: string kv) ''tok'' 10 = (Inl ErrUserNotFound, emptyKv)"
  using chargeUser_outcomes [of "emptyKv\<lparr>users := [''tok'' \<mapsto> account ''tok'' 20]\<rparr> :: string kv" "''tok''" 10]
    chargeUser_outcomes [of "emptyKv\<lparr>users := [''tok'' \<mapsto> account ''tok'' 10]\<rparr> :: string kv" "''tok''" 10]
    chargeUser_outcomes [of "emptyKv\<lparr>users := [''tok'' \<mapsto> account ''tok'' 0]\<rparr> :: string kv" "''tok''" 10]
    chargeUser_outcomes [of "emptyKv\<lparr>users := [''tok'' \<mapsto> account ''tok'' 5]\<rparr> :: string kv" "''tok''" 10]
    chargeUser_outcomes [of "emptyKv :: string kv" "''tok''" 10]
  by (simp add: emptyKv_def account_def)

subsection \<open>Rate limiting\<close>

text \<open>
  Claim C4. When the identity has no rate-limit record, or its record's \<open>resetTime\<close> lies
  strictly before \<open>now\<close>, the record is read as count 0 with the fresh reset time
  \<open>now\<close> plus the reset window (\<open>freeRateLimitResetSeconds\<close> seconds, in the clock's
  milliseconds), whatever count is stored. The comparison with \<open>freeRatelimit\<close> comes
  after that: the check is decided by the count 0 and, when it allows the request, writes
  count 1 with the fresh reset time.
\<close>

theorem rate_limit_reset_before_comparison:
  assumes "\<not> get_throws kv (rateLimitKey userId)"
    and "ratelimits kv userId = None
         \<or> (\<exists>r. ratelimits kv userId = Some r \<and> now > resetTime r)"
  shows "getRateLimitData config kv now userId
           = Inr \<lparr>count = 0, resetTime = now + freeRateLimitResetSeconds config * 1000\<rparr>
       \<and> (freeRatelimit config \<le> 0 \<longrightarrow>
            checkFreeRateLimit config kv now userId
              = (Inr (Exceeded (now + freeRateLimitResetSeconds config * 1000)), kv))
       \<and> (0 < freeRatelimit config \<and> \<not> set_throws kv (rateLimitKey userId) \<longrightarrow>
            checkFreeRateLimit config kv now userId
              = (Inr (Allowed (freeRatelimit config - 1)),
                 kv\<lparr>ratelimits := (ratelimits kv)(userId \<mapsto>
                      \<lparr>count = 1, resetTime = now + freeRateLimitResetSeconds config * 1000\<rparr>)\<rparr>))"
proof -
  have g: "getRateLimitData config kv now userId
           = Inr \<lparr>count = 0, resetTime = now + freeRateLimitResetSeconds config * 1000\<rparr>"
    using assms by (auto simp: getRateLimitData_def Let_def)
  show ?thesis
    by (simp add: g checkFreeRateLimit_def updateRateLimit_def)
qed

text \<open>
  A record with count 10 that ran out at 1000 is read at 5000 as count 0; with a limit of
  10 the request is allowed, 9 remain, and the record written has count 1.
\<close>

theorem rate_limit_reset_before_comparison_witness:
  "getRateLimitData defaultConfig
      (emptyKv\<lparr>ratelimits := [''anonymous'' \<mapsto> \<lparr>count = 10, resetTime = 1000\<rparr>]\<rparr> :: string kv)
      5000 ''anonymous''
     = Inr \<lparr>count = 0, resetTime = 3605000\<rparr>
   \<and> checkFreeRateLimit defaultConfig
      (emptyKv\<lparr>ratelimits := [''anonymous'' \<mapsto> \<lparr>count = 10, resetTime = 1000\<rparr>]\<rparr> :: string kv)
      5000 ''anonymous''
     = (Inr (Allowed 9),
        emptyKv\<lparr>ratelimits := [''anonymous'' \<mapsto> \<lparr>count = 1, resetTime = 3605000\<rparr>]\<rparr>)"
  using rate_limit_reset_before_comparison
    [of "emptyKv\<lparr>ratelimits := [''anonymous'' \<mapsto> \<lparr>count = 10, resetTime = 1000\<rparr>]\<rparr> :: string kv"
        "''anonymous''" 5000 defaultConfig]
  by (simp add: emptyKv_def defaultConfig_def)

subsection \<open>User state\<close>

text \<open>
  Claim C6. \<^verbatim>\<open>determineUserState\<close> puts a request into one user state. Without a token
  (absent or empty) it is \<open>Anonymous\<close> with the fallback identity \<^verbatim>\<open>anonymous\<close>. With a
  token: when the account lookup fails or finds nothing it is \<open>Anonymous\<close> with the token
  as identity; when the account has a balance of 0 or less it is \<open>Insufficient_balance\<close>
  with the account; otherwise it is \<open>Authenticated\<close> with the account, whose balance is
  positive.
\<close>

theorem determineUserState_cases:
  "(authToken requestData' = None \<or> authToken requestData' = Some [] \<longrightarrow>
      determineUserState kv requestData' = Anonymous ''anonymous'')
   \<and> (\<forall>token. authToken requestData' = Some token \<and> token \<noteq> [] \<longrightarrow>
        ((\<exists>e. getUserByToken kv token = Inl e) \<or> getUserByToken kv token = Inr None \<longrightarrow>
           determineUserState kv requestData' = Anonymous token)
        \<and> (\<forall>user. getUserByToken kv token = Inr (Some user) \<longrightarrow>
             (balance user \<le> 0 \<longrightarrow>
                determineUserState kv requestData' = Insufficient_balance user)
             \<and> (0 < balance user \<longrightarrow>
                determineUserState kv requestData' = Authenticated user)))"
  by (auto simp: determineUserState_def)

text \<open>The five cases on requests without and with a bearer token.\<close>

theorem determineUserState_cases_witness:
  "determineUserState (emptyKv :: string kv) (parseRequestData (getRequest ''/x'' [] None))
     = Anonymous ''anonymous''
   \<and> determineUserState (emptyKv :: string kv)
       (parseRequestData (getRequest ''/x'' [] (Some ''tok''))) = Anonymous ''tok''
   \<and> determineUserState (emptyKv\<lparr>get_throws := (\<lambda>k. True)\<rparr> :: string kv)
       (parseRequestData (getRequest ''/x'' [] (Some ''tok''))) = Anonymous ''tok''
   \<and> determineUserState (emptyKv\<lparr>users := [''tok'' \<mapsto> account ''tok'' 0]\<rparr> :: string kv)
       (parseRequestData (getRequest ''/x'' [] (Some ''tok'')))
     = Insufficient_balance (account ''tok'' 0)
   \<and> determineUserState (emptyKv\<lparr>users := [''tok'' \<mapsto> account ''tok'' 7]\<rparr> :: string kv)
       (parseRequestData (getRequest ''/x'' [] (Some ''tok'')))
     = Authenticated (account ''tok'' 7)"
  using determineUserState_cases
      [of "parseRequestData (getRequest ''/x'' [] None)" "emptyKv :: string kv"]
    determineUserState_cases
      [of "parseRequestData (getRequest ''/x'' [] (Some ''tok''))" "emptyKv :: string kv"]
    determineUserState_cases
      [of "parseRequestData (getRequest ''/x'' [] (Some ''tok''))"
          "emptyKv\<lparr>get_throws := (\<lambda>k. True)\<rparr> :: string kv"]
    determineUserState_cases
      [of "parseRequestData (getRequest ''/x'' [] (Some ''tok''))"
          "emptyKv\<lparr>users := [''tok'' \<mapsto> account ''tok'' 0]\<rparr> :: string kv"]
    determineUserState_cases
      [of "parseRequestData (getRequest ''/x'' [] (Some ''tok''))"
          "emptyKv\<lparr>users := [''tok'' \<mapsto> account ''tok'' 7]\<rparr> :: string kv"]
  by (simp add: emptyKv_def account_def parseRequestData_def getRequest_def getUserByToken_def)

subsection \<open>Caching\<close>

text \<open>
  Claim C9. When \<open>cacheSeconds\<close> is absent, zero or negative, \<^verbatim>\<open>setCache\<close> returns
  \<^verbatim>\<open>ok\<close> and leaves the store as it is, for every key and value, also in a store whose
  writes would throw.
\<close>

theorem setCache_disabled_is_noop:
  "cacheSeconds config = None \<or> (\<exists>secs. cacheSeconds config = Some secs \<and> secs \<le> 0) \<Longrightarrow>
     setCache config kv cacheKey v = (Inr (), kv)"
  by (auto simp: setCache_def)

text \<open>
  With the time to live absent, 0 or -5 nothing is written; with the default of 300
  seconds the entry is written.
\<close>

theorem setCache_disabled_is_noop_witness:
  "setCache (defaultConfig\<lparr>cacheSeconds := None\<rparr>) (emptyKv\<lparr>set_throws := (\<lambda>k. True)\<rparr>)
      ''cache:v1:/x::json'' ''body''
     = (Inr (), emptyKv\<lparr>set_throws := (\<lambda>k. True)\<rparr>)
   \<and> setCache (defaultConfig\<lparr>cacheSeconds := Some 0\<rparr>) emptyKv ''cache:v1:/x::json'' ''body''
     = (Inr (), emptyKv)
   \<and> setCache (defaultConfig\<lparr>cacheSeconds := Some (- 5)\<rparr>) emptyKv ''cache:v1:/x::json'' ''body''
     = (Inr (), emptyKv)
   \<and> setCache defaultConfig emptyKv ''cache:v1:/x::json'' ''body''
     = (Inr (), emptyKv\<lparr>cache := [''cache:v1:/x::json'' \<mapsto> (''body'', 300000)]\<rparr>)"
  using setCache_disabled_is_noop
      [of "defaultConfig\<lparr>cacheSeconds := None\<rparr>" "emptyKv\<lparr>set_throws := (\<lambda>k. True)\<rparr>"
          "''cache:v1:/x::json''" "''body''"]
    setCache_disabled_is_noop
      [of "defaultConfig\<lparr>cacheSeconds := Some 0\<rparr>" emptyKv "''cache:v1:/x::json''" "''body''"]
    setCache_disabled_is_noop
      [of "defaultConfig\<lparr>cacheSeconds := Some (- 5)\<rparr>" emptyKv "''cache:v1:/x::json''" "''body''"]
  by (simp add: setCache_def defaultConfig_def emptyKv_def)

text \<open>
  Claim C10. \<^verbatim>\<open>getFromCache\<close> reports a hit for truthy values only. A key that is absent
  or holds a falsy value reads as a miss: the empty string at type \<^verbatim>\<open>string\<close>, and the
  empty string, 0, \<^verbatim>\<open>false\<close> and \<^verbatim>\<open>null\<close> among JavaScript values. A request whose cache
  entry is the empty body is therefore not served from the cache: \<^verbatim>\<open>handleRequest\<close>
  goes on with user state, rate limit and billing.
\<close>

theorem getFromCache_falsy_is_miss:
  "(\<not> get_throws kv cacheKey
      \<and> (cache kv cacheKey = None
          \<or> (\<exists>v expireIn. cache kv cacheKey = Some (v, expireIn) \<and> \<not> toBoolean v)) \<longrightarrow>
      getFromCache toBoolean kv cacheKey = Inr Miss)
   \<and> (\<forall>expireIn. \<not> get_throws kvs cacheKey \<and> cache kvs cacheKey = Some ([], expireIn) \<longrightarrow>
        getFromCache toBoolean_string kvs cacheKey = Inr Miss)
   \<and> (\<forall>v expireIn. \<not> get_throws kvj cacheKey \<and> cache kvj cacheKey = Some (v, expireIn)
        \<and> v \<in> {JString [], JNumber 0, JBoolean False, JNull} \<longrightarrow>
        getFromCache toBoolean_jsvalue kvj cacheKey = Inr Miss)
   \<and> (\<forall>expireIn. req_method request' \<noteq> ''OPTIONS''
        \<and> cache kvs (createCacheKey localeCompare config
                       (pathname (parseRequestData request'))
                       (searchParams (parseRequestData request'))
                       (getResponseFormat (parseRequestData request'))) = Some ([], expireIn) \<longrightarrow>
        handleRequest localeCompare config kvs env now request'
          = handleCacheMiss config kvs env now request' (parseRequestData request')
              (getResponseFormat (parseRequestData request'))
              (createCacheKey localeCompare config
                 (pathname (parseRequestData request'))
                 (searchParams (parseRequestData request'))
                 (getResponseFormat (parseRequestData request'))))"
  by (auto simp: getFromCache_def toBoolean_string_def handleRequest_def Let_def)

text \<open>
  An empty cached body, the falsy JavaScript values and a missing key all read as a miss,
  and the request for an empty cached body runs the rest of the pipeline.
\<close>

theorem getFromCache_falsy_is_miss_witness:
  "getFromCache toBoolean_string
      (emptyKv\<lparr>cache := [''cache:v1:/x::json'' \<mapsto> ([], 300000)]\<rparr>) ''cache:v1:/x::json''
     = Inr Miss
   \<and> getFromCache toBoolean_jsvalue
      (emptyKv\<lparr>cache := [''k'' \<mapsto> (JNumber 0, 300000)]\<rparr>) ''k'' = Inr Miss
   \<and> getFromCache toBoolean_jsvalue
      (emptyKv\<lparr>cache := [''k'' \<mapsto> (JBoolean False, 300000)]\<rparr>) ''k'' = Inr Miss
   \<and> getFromCache toBoolean_jsvalue
      (emptyKv\<lparr>cache := [''k'' \<mapsto> (JNull, 300000)]\<rparr>) ''k'' = Inr Miss
   \<and> getFromCache toBoolean_jsvalue (emptyKv :: jsvalue kv) ''k'' = Inr Miss
   \<and> handleRequest compareCodes defaultConfig
        (emptyKv\<lparr>cache := [''cache:v1:/x::json'' \<mapsto> ([], 300000)]\<rparr>) Map.empty 5000
        (getRequest ''/x'' [] None)
      = handleCacheMiss defaultConfig
        (emptyKv\<lparr>cache := [''cache:v1:/x::json'' \<mapsto> ([], 300000)]\<rparr>) Map.empty 5000
        (getRequest ''/x'' [] None) (parseRequestData (getRequest ''/x'' [] None)) Json
        ''cache:v1:/x::json''"
proof -
  let ?kvs = "emptyKv\<lparr>cache := [''cache:v1:/x::json'' \<mapsto> ([], 300000)]\<rparr> :: string kv"
  let ?r = "getRequest ''/x'' [] None"
  have v: "version defaultConfig = 1"
    by (simp add: defaultConfig_def)
  note k = key_x [OF v] getRequest_parsed(1,2,3) getRequest_x_format
  have s: "cache ?kvs ''cache:v1:/x::json'' = Some ([], 300000)"
    by (simp add: emptyKv_def)
  have gs: "\<not> get_throws (emptyKv\<lparr>cache := c\<rparr> :: string kv) key" for c key
    by (simp add: emptyKv_def)
  have gj: "\<not> get_throws (emptyKv\<lparr>cache := c\<rparr> :: jsvalue kv) key" for c key
    by (simp add: emptyKv_def)
  have g0: "\<not> get_throws (emptyKv :: jsvalue kv) ''k''"
    "cache (emptyKv :: jsvalue kv) ''k'' = None"
    by (simp_all add: emptyKv_def)
  note t = getFromCache_falsy_is_miss
  have c1: "getFromCache toBoolean_string ?kvs ''cache:v1:/x::json'' = Inr Miss"
    using t [where kvs = ?kvs and cacheKey = "''cache:v1:/x::json''",
        THEN conjunct2, THEN conjunct1, rule_format, of 300000] s gs
    by simp
  have c2: "getFromCache toBoolean_jsvalue
      (emptyKv\<lparr>cache := [''k'' \<mapsto> (v, 300000)]\<rparr>) ''k'' = Inr Miss"
    if "v \<in> {JString [], JNumber 0, JBoolean False, JNull}" for v
  proof -
    have "cache (emptyKv\<lparr>cache := [''k'' \<mapsto> (v, 300000)]\<rparr>) ''k'' = Some (v, 300000)"
      by (simp add: emptyKv_def)
    then show ?thesis
      using t [where kvj = "emptyKv\<lparr>cache := [''k'' \<mapsto> (v, 300000)]\<rparr>"
          and cacheKey = "''k''", THEN conjunct2, THEN conjunct2, THEN conjunct1,
          rule_format, of v 300000] that gj
      by simp
  qed
  have c3: "getFromCache toBoolean_jsvalue (emptyKv :: jsvalue kv) ''k'' = Inr Miss"
    using t [where kv = "emptyKv :: jsvalue kv" and cacheKey = "''k''"
        and toBoolean = toBoolean_jsvalue, THEN conjunct1] g0 by simp
  have c4: "handleRequest compareCodes defaultConfig ?kvs Map.empty 5000 ?r
      = handleCacheMiss defaultConfig ?kvs Map.empty 5000 ?r (parseRequestData ?r) Json
        ''cache:v1:/x::json''"
    using t [where kvs = ?kvs and request' = ?r and localeCompare = compareCodes
        and config = defaultConfig and env = Map.empty and now = 5000,
        THEN conjunct2, THEN conjunct2, THEN conjunct2, rule_format, of 300000] s
    by (simp add: k)
  show ?thesis
    using c1 c2 c3 c4 by simp
qed

text \<open>
  Claim C3. When the cache lookup of a request other than OPTIONS is a hit,
  \<^verbatim>\<open>handleRequest\<close> returns at once the success response composed from the cached body,
  with status 200 and \<^verbatim>\<open>X-Cache: HIT\<close> (for json and markdown the content is the cached
  body itself). The store is returned unchanged, and the response is the same whatever
  accounts and rate-limit records the store holds, whatever the time is and whatever
  the business handler would do: no user state is resolved, no rate limit is read or
  counted, nothing is charged.
\<close>

theorem cache_hit_bypasses_pipeline:
  assumes "req_method request' \<noteq> ''OPTIONS''"
    and "getFromCache toBoolean_string kv
           (createCacheKey localeCompare config
              (pathname (parseRequestData request'))
              (searchParams (parseRequestData request'))
              (getResponseFormat (parseRequestData request'))) = Inr (Hit v)"
  shows "handleRequest localeCompare config kv env now request'
           = (Inr (createSuccessResponse v (getResponseFormat (parseRequestData request')) HIT),
              kv)
       \<and> (\<exists>resp. fst (handleRequest localeCompare config kv env now request') = Inr resp
            \<and> status resp = 200
            \<and> map_of (responseHeaders resp) ''X-Cache'' = Some ''HIT''
            \<and> (getResponseFormat (parseRequestData request') \<noteq> Html \<longrightarrow>
                 content resp = TextBody v))
       \<and> (\<forall>users' ratelimits' now' fetch'.
            fst (handleRequest localeCompare (config\<lparr>fetch := fetch'\<rparr>)
                   (kv\<lparr>users := users', ratelimits := ratelimits'\<rparr>) env now' request')
              = fst (handleRequest localeCompare config kv env now request'))"
proof -
  let ?key = "createCacheKey localeCompare config
              (pathname (parseRequestData request'))
              (searchParams (parseRequestData request'))
              (getResponseFormat (parseRequestData request'))"
  have main: "handleRequest localeCompare config kv env now request'
           = (Inr (createSuccessResponse v (getResponseFormat (parseRequestData request')) HIT),
              kv)"
    using assms by (simp add: handleRequest_def Let_def)
  have key: "createCacheKey localeCompare (config\<lparr>fetch := fetch'\<rparr>) p q f
             = createCacheKey localeCompare config p q f" for fetch' p q f
    by (simp add: createCacheKey_def)
  have get: "getFromCache toBoolean_string (kv\<lparr>users := users', ratelimits := ratelimits'\<rparr>) ?key
             = Inr (Hit v)" for users' ratelimits'
    using assms(2) by (auto simp: getFromCache_def split: if_splits)
  have other: "fst (handleRequest localeCompare (config\<lparr>fetch := fetch'\<rparr>)
                   (kv\<lparr>users := users', ratelimits := ratelimits'\<rparr>) env now' request')
              = Inr (createSuccessResponse v (getResponseFormat (parseRequestData request')) HIT)"
    for users' ratelimits' now' fetch'
    using assms(1) by (simp add: handleRequest_def Let_def key get)
  show ?thesis
    unfolding main
    by (auto simp: other createSuccessResponse_def split: responseFormat.splits)
qed

text \<open>
  In a store where the free tier of the requester is used up and the account is empty, the
  cached answer is still served, to the anonymous requester and to the one with a token;
  without the cache entry both get status 402.
\<close>

theorem cache_hit_bypasses_pipeline_witness:
  "handleRequest compareCodes defaultConfig
      (exhaustedKv\<lparr>cache := [''cache:v1:/x::json'' \<mapsto> (''cached'', 300000)]\<rparr>)
      Map.empty 5000 (getRequest ''/x'' [] None)
     = (Inr \<lparr>status = 200, content = TextBody ''cached'',
         responseHeaders = (''Content-Type'', ''application/json'') # (''X-Cache'', ''HIT'')
           # createCorsHeaders\<rparr>,
        exhaustedKv\<lparr>cache := [''cache:v1:/x::json'' \<mapsto> (''cached'', 300000)]\<rparr>)
   \<and> fst (handleRequest compareCodes defaultConfig
      (exhaustedKv\<lparr>cache := [''cache:v1:/x::json'' \<mapsto> (''cached'', 300000)]\<rparr>)
      Map.empty 5000 (getRequest ''/x'' [] (Some ''tok'')))
     = Inr \<lparr>status = 200, content = TextBody ''cached'',
         responseHeaders = (''Content-Type'', ''application/json'') # (''X-Cache'', ''HIT'')
           # createCorsHeaders\<rparr>
   \<and> (\<exists>resp. fst (handleRequest compareCodes defaultConfig exhaustedKv Map.empty 5000
                     (getRequest ''/x'' [] None)) = Inr resp \<and> status resp = 402)
   \<and> (\<exists>resp. fst (handleRequest compareCodes defaultConfig exhaustedKv Map.empty 5000
                     (getRequest ''/x'' [] (Some ''tok''))) = Inr resp \<and> status resp = 402)"
proof -
  let ?kv = "exhaustedKv\<lparr>cache := [''cache:v1:/x::json'' \<mapsto> (''cached'', 300000)]\<rparr>"
  have v: "version defaultConfig = 1"
    by (simp add: defaultConfig_def)
  note k = key_x [OF v] getRequest_parsed(1,2,3) getRequest_x_format
  have hit: "getFromCache toBoolean_string ?kv ''cache:v1:/x::json'' = Inr (Hit ''cached'')"
    by (simp add: getFromCache_def exhaustedKv_def emptyKv_def toBoolean_string_def)
  have miss: "getFromCache toBoolean_string exhaustedKv ''cache:v1:/x::json'' \<noteq> Inr (Hit w)"
    for w
    by (simp add: getFromCache_def exhaustedKv_def emptyKv_def)
  have a: "\<exists>resp. fst (handleRequest compareCodes defaultConfig exhaustedKv Map.empty 5000
                    (getRequest ''/x'' [] bearer)) = Inr resp \<and> status resp = 402"
    if b: "bearer = None \<or> bearer = Some ''tok''" for bearer
  proof -
    have "authToken (parseRequestData (getRequest ''/x'' [] bearer)) = None
        \<or> authToken (parseRequestData (getRequest ''/x'' [] bearer)) = Some ''tok''"
      using b getRequest_parsed(5,6) by auto
    then show ?thesis
      using handleRequest_miss [of "getRequest ''/x'' [] bearer" exhaustedKv compareCodes
          defaultConfig Map.empty 5000] miss
      by (simp add: k exhausted_402)
  qed
  have h: "handleRequest compareCodes defaultConfig ?kv Map.empty 5000 (getRequest ''/x'' [] bearer)
      = (Inr (createSuccessResponse ''cached'' Json HIT), ?kv)" for bearer
    using cache_hit_bypasses_pipeline
        [of "getRequest ''/x'' [] bearer" ?kv compareCodes defaultConfig "''cached''"
            Map.empty 5000]
    by (simp add: k hit)
  show ?thesis
    using a [of None] a [of "Some ''tok''"]
    by (simp add: h createSuccessResponse_def)
qed

subsection \<open>The free tier\<close>

lemma checkRateLimit_free_tier:
  assumes "userState' = Anonymous clientId
           \<or> (\<exists>user. userState' = Insufficient_balance user \<and> clientId = access_token user)"
    and "getRateLimitData config kv now clientId = Inr d"
  shows "(count d \<ge> freeRatelimit config \<longrightarrow>
            checkRateLimit config kv now userState' = (Inr (Exceeded (resetTime d)), kv))
       \<and> (count d < freeRatelimit config \<and> \<not> set_throws kv (rateLimitKey clientId) \<longrightarrow>
            checkRateLimit config kv now userState'
              = (Inr (Allowed (freeRatelimit config - (count d + 1))),
                 kv\<lparr>ratelimits := (ratelimits kv)(clientId \<mapsto>
                      d\<lparr>count := count d + 1\<rparr>)\<rparr>))"
  using assms
  by (auto simp: checkRateLimit_def checkFreeRateLimit_def updateRateLimit_def Let_def)

text \<open>What \<open>handleCacheMiss\<close> does after the rate-limit check.\<close>

lemma handleCacheMiss_allowed:
  assumes "checkRateLimit config kv now (determineUserState kv rd) = (Inr (Allowed n), kv1)"
    and "\<forall>user. determineUserState kv rd \<noteq> Authenticated user"
  shows "handleCacheMiss config kv env now r rd f k = (Inl TypeError, kv1)"
  using assms
  by (simp add: handleCacheMiss_def exhaustive_of_promise_def split: userState.splits)

lemma handleCacheMiss_exceeded:
  assumes "checkRateLimit config kv now (determineUserState kv rd) = (Inr (Exceeded t), kv1)"
  shows "handleCacheMiss config kv env now r rd f k
           = (Inr (createPaymentRequiredResponse env (rateLimitMessage config)), kv1)"
  using assms by (simp add: handleCacheMiss_def)

lemma rateLimitMessage_2_3600:
  assumes "freeRatelimit config = 2" and "freeRateLimitResetSeconds config = 3600"
  shows "rateLimitMessage config
           = ''Free rate limit exceeded. Limit: 2 requests per 3600 seconds.''"
  by (simp add: rateLimitMessage_def assms numberToString_examples)

lemma anonymous_requests_2_per_window:
  assumes lim: "freeRatelimit config = 2" "freeRateLimitResetSeconds config = 3600"
    and store: "\<forall>k. \<not> get_throws kv k \<and> \<not> set_throws kv k"
    and fresh: "ratelimits kv ''anonymous'' = None
                \<or> (\<exists>r. ratelimits kv ''anonymous'' = Some r \<and> t1 > resetTime r)"
    and anon: "authToken (parseRequestData r1) = None" "authToken (parseRequestData r2) = None"
      "authToken (parseRequestData r3) = None"
    and meth: "req_method r1 \<noteq> ''OPTIONS''" "req_method r2 \<noteq> ''OPTIONS''"
      "req_method r3 \<noteq> ''OPTIONS''"
    and times: "t1 \<le> t2" "t2 \<le> t3" "t3 \<le> t1 + 3600 * 1000"
    and h1: "handleRequest lc config kv env t1 r1 = (out1, kv1)"
    and h2: "handleRequest lc config kv1 env t2 r2 = (out2, kv2)"
    and h3: "handleRequest lc config kv2 env t3 r3 = (out3, kv3)"
    and m1: "\<forall>v. getFromCache toBoolean_string kv (requestCacheKey lc config r1) \<noteq> Inr (Hit v)"
    and m2: "\<forall>v. getFromCache toBoolean_string kv1 (requestCacheKey lc config r2) \<noteq> Inr (Hit v)"
    and m3: "\<forall>v. getFromCache toBoolean_string kv2 (requestCacheKey lc config r3) \<noteq> Inr (Hit v)"
  shows "checkRateLimit config kv t1 (determineUserState kv (parseRequestData r1))
           = (Inr (Allowed 1), kv1)"
    and "checkRateLimit config kv1 t2 (determineUserState kv1 (parseRequestData r2))
           = (Inr (Allowed 0), kv2)"
    and "checkRateLimit config kv2 t3 (determineUserState kv2 (parseRequestData r3))
           = (Inr (Exceeded (t1 + 3600 * 1000)), kv3)"
    and "out1 = Inl TypeError" and "out2 = Inl TypeError"
    and "out3 = Inr (createPaymentRequiredResponse env
                   ''Free rate limit exceeded. Limit: 2 requests per 3600 seconds.'')"
proof -
  let ?w = "t1 + 3600 * 1000"
  let ?rl1 = "(ratelimits kv)(''anonymous'' \<mapsto> \<lparr>count = 1, resetTime = ?w\<rparr>)"
  let ?rl2 = "(ratelimits kv)(''anonymous'' \<mapsto> \<lparr>count = 2, resetTime = ?w\<rparr>)"
  have u: "determineUserState s (parseRequestData r1) = Anonymous ''anonymous''"
    "determineUserState s (parseRequestData r2) = Anonymous ''anonymous''"
    "determineUserState s (parseRequestData r3) = Anonymous ''anonymous''" for s :: "string kv"
    using anon by (simp_all add: determineUserState_def)
  \<comment> \<open>first request\<close>
  have g1: "getRateLimitData config kv t1 ''anonymous'' = Inr \<lparr>count = 0, resetTime = ?w\<rparr>"
    using fresh store by (auto simp: getRateLimitData_def Let_def lim)
  have c1: "checkRateLimit config kv t1 (Anonymous ''anonymous'')
      = (Inr (Allowed 1), kv\<lparr>ratelimits := ?rl1\<rparr>)"
    using checkRateLimit_free_tier [of "Anonymous ''anonymous''" "''anonymous''" config kv t1,
        OF _ g1] store
    by (simp add: lim)
  have s1: "handleRequest lc config kv env t1 r1 = (Inl TypeError, kv\<lparr>ratelimits := ?rl1\<rparr>)"
    unfolding handleRequest_miss [OF meth(1) m1 [rule_format]]
    by (rule handleCacheMiss_allowed [where n = 1]) (simp_all add: u c1)
  from s1 h1 have o1: "out1 = Inl TypeError" and k1: "kv1 = kv\<lparr>ratelimits := ?rl1\<rparr>"
    by simp_all
  \<comment> \<open>second request\<close>
  have g2: "getRateLimitData config kv1 t2 ''anonymous'' = Inr \<lparr>count = 1, resetTime = ?w\<rparr>"
    using store times by (simp add: getRateLimitData_def Let_def k1)
  have c2: "checkRateLimit config kv1 t2 (Anonymous ''anonymous'')
      = (Inr (Allowed 0), kv\<lparr>ratelimits := ?rl2\<rparr>)"
    using checkRateLimit_free_tier [of "Anonymous ''anonymous''" "''anonymous''" config kv1 t2,
        OF _ g2] store
    by (simp add: lim k1)
  have s2: "handleRequest lc config kv1 env t2 r2 = (Inl TypeError, kv\<lparr>ratelimits := ?rl2\<rparr>)"
    unfolding handleRequest_miss [OF meth(2) m2 [rule_format]]
    by (rule handleCacheMiss_allowed [where n = 0]) (simp_all add: u c2)
  from s2 h2 have o2: "out2 = Inl TypeError" and k2: "kv2 = kv\<lparr>ratelimits := ?rl2\<rparr>"
    by simp_all
  \<comment> \<open>third request\<close>
  have g3: "getRateLimitData config kv2 t3 ''anonymous'' = Inr \<lparr>count = 2, resetTime = ?w\<rparr>"
    using store times by (simp add: getRateLimitData_def Let_def k2)
  have c3: "checkRateLimit config kv2 t3 (Anonymous ''anonymous'') = (Inr (Exceeded ?w), kv2)"
    using checkRateLimit_free_tier [of "Anonymous ''anonymous''" "''anonymous''" config kv2 t3,
        OF _ g3]
    by (simp add: lim)
  have s3: "handleRequest lc config kv2 env t3 r3
      = (Inr (createPaymentRequiredResponse env (rateLimitMessage config)), kv2)"
    unfolding handleRequest_miss [OF meth(3) m3 [rule_format]]
    by (rule handleCacheMiss_exceeded [where t = ?w]) (simp add: u c3)
  from s3 h3 have o3: "out3 = Inr (createPaymentRequiredResponse env
                   ''Free rate limit exceeded. Limit: 2 requests per 3600 seconds.'')"
    and k3: "kv3 = kv2"
    by (simp_all add: rateLimitMessage_2_3600 [OF lim])
  show "checkRateLimit config kv t1 (determineUserState kv (parseRequestData r1))
           = (Inr (Allowed 1), kv1)"
    by (simp add: u c1 k1)
  show "checkRateLimit config kv1 t2 (determineUserState kv1 (parseRequestData r2))
           = (Inr (Allowed 0), kv2)"
    by (simp add: u c2 k2)
  show "checkRateLimit config kv2 t3 (determineUserState kv2 (parseRequestData r3))
           = (Inr (Exceeded (t1 + 3600 * 1000)), kv3)"
    by (simp add: u c3 k3)
  show "out1 = Inl TypeError" "out2 = Inl TypeError"
    by (rule o1, rule o2)
  show "out3 = Inr (createPaymentRequiredResponse env
                   ''Free rate limit exceeded. Limit: 2 requests per 3600 seconds.'')"
    by (rule o3)
qed

lemma twoPerHour_step:
  assumes "n < 2" and "now \<le> reset"
  shows "handleRequest compareCodes twoPerHourConfig (anonymousCount n reset) Map.empty now
           (getRequest ''/x'' [] None)
         = (Inl TypeError, anonymousCount (n + 1) reset)"
proof -
  have miss: "getFromCache toBoolean_string (anonymousCount n reset) k \<noteq> Inr (Hit v)" for k v
    by (simp add: getFromCache_def anonymousCount_def emptyKv_def)
  show ?thesis
    unfolding handleRequest_miss [OF getRequest_parsed(1) miss]
    using assms
    by (simp add: handleCacheMiss_def exhaustive_of_promise_def determineUserState_def
        getRequest_parsed getRequest_x_format checkRateLimit_def checkFreeRateLimit_def
        getRateLimitData_def updateRateLimit_def twoPerHourConfig_def defaultConfig_def
        anonymousCount_def emptyKv_def Let_def)
qed

lemma twoPerHour_first:
  "handleRequest compareCodes twoPerHourConfig emptyKv Map.empty 1000
           (getRequest ''/x'' [] None)
         = (Inl TypeError, anonymousCount 1 3601000)"
proof -
  have miss: "getFromCache toBoolean_string emptyKv k \<noteq> Inr (Hit v)" for k v
    by (simp add: getFromCache_def emptyKv_def)
  show ?thesis
    unfolding handleRequest_miss [OF getRequest_parsed(1) miss]
    by (simp add: handleCacheMiss_def exhaustive_of_promise_def determineUserState_def
        getRequest_parsed getRequest_x_format checkRateLimit_def checkFreeRateLimit_def
        getRateLimitData_def updateRateLimit_def twoPerHourConfig_def defaultConfig_def
        anonymousCount_def emptyKv_def Let_def)
qed

text \<open>
  Claim C1. On the free-tier path (user state \<open>Anonymous\<close> or \<open>Insufficient_balance\<close>),
  with \<open>d\<close> the current record of the identity as \<^verbatim>\<open>getRateLimitData\<close> reads it: when
  the count has reached \<open>freeRatelimit\<close> the check returns \<open>Exceeded\<close> with the record's
  reset time and the store is untouched; otherwise (the write not throwing) it stores
  the record with count + 1 and the same reset time and returns \<open>Allowed\<close> with
  \<open>freeRatelimit - (count + 1)\<close>. This part of the claim holds.

  The consequence for three anonymous requests that miss the cache within one window,
  with a free tier of 2 requests per 3600 seconds and a store that answers, holds for
  the check and for the third request: the check allows the first and the second
  (\<open>Allowed 1\<close>, \<open>Allowed 0\<close>) and counts them, and the third gets status 402 with a
  message that contains \<^verbatim>\<open>2 requests per 3600\<close>. The first and the second request are
  not answered, though: once the check has allowed a request, the charging step of
  \<^verbatim>\<open>handleRequest\<close> throws the \<^verbatim>\<open>TypeError\<close>, whatever the business handler is. So
  the first two requests end in a rejected Promise where the claim has them succeed.
\<close>

theorem free_tier_check_and_consume:
  "((userState' = Anonymous clientId
      \<or> (\<exists>user. userState' = Insufficient_balance user \<and> clientId = access_token user))
     \<and> getRateLimitData config kv now clientId = Inr d \<longrightarrow>
       (count d \<ge> freeRatelimit config \<longrightarrow>
          checkRateLimit config kv now userState' = (Inr (Exceeded (resetTime d)), kv))
     \<and> (count d < freeRatelimit config \<and> \<not> set_throws kv (rateLimitKey clientId) \<longrightarrow>
          checkRateLimit config kv now userState'
            = (Inr (Allowed (freeRatelimit config - (count d + 1))),
               kv\<lparr>ratelimits := (ratelimits kv)(clientId \<mapsto> d\<lparr>count := count d + 1\<rparr>)\<rparr>)))
   \<and> (freeRatelimit config = 2 \<and> freeRateLimitResetSeconds config = 3600
      \<and> (\<forall>k. \<not> get_throws kv k \<and> \<not> set_throws kv k)
      \<and> (ratelimits kv ''anonymous'' = None
          \<or> (\<exists>r. ratelimits kv ''anonymous'' = Some r \<and> t1 > resetTime r))
      \<and> authToken (parseRequestData r1) = None \<and> req_method r1 \<noteq> ''OPTIONS''
      \<and> authToken (parseRequestData r2) = None \<and> req_method r2 \<noteq> ''OPTIONS''
      \<and> authToken (parseRequestData r3) = None \<and> req_method r3 \<noteq> ''OPTIONS''
      \<and> t1 \<le> t2 \<and> t2 \<le> t3 \<and> t3 \<le> t1 + 3600 * 1000
      \<and> handleRequest lc config kv env t1 r1 = (out1, kv1)
      \<and> handleRequest lc config kv1 env t2 r2 = (out2, kv2)
      \<and> handleRequest lc config kv2 env t3 r3 = (out3, kv3)
      \<and> (\<forall>v. getFromCache toBoolean_string kv (requestCacheKey lc config r1) \<noteq> Inr (Hit v))
      \<and> (\<forall>v. getFromCache toBoolean_string kv1 (requestCacheKey lc config r2) \<noteq> Inr (Hit v))
      \<and> (\<forall>v. getFromCache toBoolean_string kv2 (requestCacheKey lc config r3) \<noteq> Inr (Hit v))
      \<longrightarrow>
        checkRateLimit config kv t1 (determineUserState kv (parseRequestData r1))
          = (Inr (Allowed 1), kv1)
      \<and> checkRateLimit config kv1 t2 (determineUserState kv1 (parseRequestData r2))
          = (Inr (Allowed 0), kv2)
      \<and> checkRateLimit config kv2 t3 (determineUserState kv2 (parseRequestData r3))
          = (Inr (Exceeded (t1 + 3600 * 1000)), kv3)
      \<and> out1 = Inl TypeError \<and> out2 = Inl TypeError
      \<and> (\<exists>resp3. out3 = Inr resp3 \<and> status resp3 = 402
           \<and> content resp3
               = JsonBody \<lparr>body_error = ''Payment Required'',
                   message = ''Free rate limit exceeded. Limit: 2 requests per 3600 seconds.'',
                   payment_link = env ''STRIPE_PAYMENT_LINK'', body_status = 402\<rparr>)
      \<and> stringIncludes ''Free rate limit exceeded. Limit: 2 requests per 3600 seconds.''
            ''2 requests per 3600'')"
proof (intro conjI impI)
  assume "(userState' = Anonymous clientId
      \<or> (\<exists>user. userState' = Insufficient_balance user \<and> clientId = access_token user))
     \<and> getRateLimitData config kv now clientId = Inr d"
  then have *: "(count d \<ge> freeRatelimit config \<longrightarrow>
          checkRateLimit config kv now userState' = (Inr (Exceeded (resetTime d)), kv))
     \<and> (count d < freeRatelimit config \<and> \<not> set_throws kv (rateLimitKey clientId) \<longrightarrow>
          checkRateLimit config kv now userState'
            = (Inr (Allowed (freeRatelimit config - (count d + 1))),
               kv\<lparr>ratelimits := (ratelimits kv)(clientId \<mapsto> d\<lparr>count := count d + 1\<rparr>)\<rparr>))"
    using checkRateLimit_free_tier [of userState' clientId config kv now d] by blast
  {
    assume "count d \<ge> freeRatelimit config"
    with * show "checkRateLimit config kv now userState' = (Inr (Exceeded (resetTime d)), kv)"
      by blast
  }
  {
    assume "count d < freeRatelimit config \<and> \<not> set_throws kv (rateLimitKey clientId)"
    with * show "checkRateLimit config kv now userState'
            = (Inr (Allowed (freeRatelimit config - (count d + 1))),
               kv\<lparr>ratelimits := (ratelimits kv)(clientId \<mapsto> d\<lparr>count := count d + 1\<rparr>)\<rparr>)"
      by blast
  }
next
  assume a: "freeRatelimit config = 2 \<and> freeRateLimitResetSeconds config = 3600
      \<and> (\<forall>k. \<not> get_throws kv k \<and> \<not> set_throws kv k)
      \<and> (ratelimits kv ''anonymous'' = None
          \<or> (\<exists>r. ratelimits kv ''anonymous'' = Some r \<and> t1 > resetTime r))
      \<and> authToken (parseRequestData r1) = None \<and> req_method r1 \<noteq> ''OPTIONS''
      \<and> authToken (parseRequestData r2) = None \<and> req_method r2 \<noteq> ''OPTIONS''
      \<and> authToken (parseRequestData r3) = None \<and> req_method r3 \<noteq> ''OPTIONS''
      \<and> t1 \<le> t2 \<and> t2 \<le> t3 \<and> t3 \<le> t1 + 3600 * 1000
      \<and> handleRequest lc config kv env t1 r1 = (out1, kv1)
      \<and> handleRequest lc config kv1 env t2 r2 = (out2, kv2)
      \<and> handleRequest lc config kv2 env t3 r3 = (out3, kv3)
      \<and> (\<forall>v. getFromCache toBoolean_string kv (requestCacheKey lc config r1) \<noteq> Inr (Hit v))
      \<and> (\<forall>v. getFromCache toBoolean_string kv1 (requestCacheKey lc config r2) \<noteq> Inr (Hit v))
      \<and> (\<forall>v. getFromCache toBoolean_string kv2 (requestCacheKey lc config r3) \<noteq> Inr (Hit v))"
  note r = anonymous_requests_2_per_window [of config kv t1 r1 r2 r3 t2 t3 lc env out1 kv1
          out2 kv2 out3 kv3]
  show "checkRateLimit config kv t1 (determineUserState kv (parseRequestData r1))
          = (Inr (Allowed 1), kv1)"
    by (rule r(1)) (use a in blast)+
  show "checkRateLimit config kv1 t2 (determineUserState kv1 (parseRequestData r2))
          = (Inr (Allowed 0), kv2)"
    by (rule r(2)) (use a in blast)+
  show "checkRateLimit config kv2 t3 (determineUserState kv2 (parseRequestData r3))
          = (Inr (Exceeded (t1 + 3600 * 1000)), kv3)"
    by (rule r(3)) (use a in blast)+
  show "out1 = Inl TypeError"
    by (rule r(4)) (use a in blast)+
  show "out2 = Inl TypeError"
    by (rule r(5)) (use a in blast)+
  have "out3 = Inr (createPaymentRequiredResponse env
                   ''Free rate limit exceeded. Limit: 2 requests per 3600 seconds.'')"
    by (rule r(6)) (use a in blast)+
  then show "\<exists>resp3. out3 = Inr resp3 \<and> status resp3 = 402
           \<and> content resp3
               = JsonBody \<lparr>body_error = ''Payment Required'',
                   message = ''Free rate limit exceeded. Limit: 2 requests per 3600 seconds.'',
                   payment_link = env ''STRIPE_PAYMENT_LINK'', body_status = 402\<rparr>"
    by (simp add: createPaymentRequiredResponse_def)
  show "stringIncludes ''Free rate limit exceeded. Limit: 2 requests per 3600 seconds.''
            ''2 requests per 3600''"
    by simp
qed

text \<open>
  Three requests for \<^verbatim>\<open>/x\<close> at times 1000, 2000 and 3000, starting from the empty store:
  the first two are allowed and counted and then end in the \<^verbatim>\<open>TypeError\<close>, the third
  gets the 402 response. The second check leaves no request (\<open>Allowed 0\<close>), the third is
  \<open>Exceeded\<close>, also for an account without credit.
\<close>

theorem free_tier_check_and_consume_witness:
  "handleRequest compareCodes twoPerHourConfig emptyKv Map.empty 1000
       (getRequest ''/x'' [] None)
     = (Inl TypeError, anonymousCount 1 3601000)
   \<and> handleRequest compareCodes twoPerHourConfig (anonymousCount 1 3601000) Map.empty 2000
       (getRequest ''/x'' [] None)
     = (Inl TypeError, anonymousCount 2 3601000)
   \<and> handleRequest compareCodes twoPerHourConfig (anonymousCount 2 3601000) Map.empty 3000
       (getRequest ''/x'' [] None)
     = (Inr \<lparr>status = 402,
             content = JsonBody \<lparr>body_error = ''Payment Required'',
               message = ''Free rate limit exceeded. Limit: 2 requests per 3600 seconds.'',
               payment_link = None, body_status = 402\<rparr>,
             responseHeaders = (''Content-Type'', ''application/json'') # createCorsHeaders\<rparr>,
        anonymousCount 2 3601000)
   \<and> checkRateLimit twoPerHourConfig emptyKv 1000 (Anonymous ''anonymous'')
       = (Inr (Allowed 1), anonymousCount 1 3601000)
   \<and> checkRateLimit twoPerHourConfig (anonymousCount 1 3601000) 2000 (Anonymous ''anonymous'')
       = (Inr (Allowed 0), anonymousCount 2 3601000)
   \<and> checkRateLimit twoPerHourConfig (anonymousCount 2 3601000) 3000 (Anonymous ''anonymous'')
       = (Inr (Exceeded 3601000), anonymousCount 2 3601000)
   \<and> checkRateLimit twoPerHourConfig (anonymousCount 2 3601000) 3000
         (Insufficient_balance (account ''anonymous'' 0))
       = (Inr (Exceeded 3601000), anonymousCount 2 3601000)"
proof -
  let ?r = "getRequest ''/x'' [] None"
  let ?h3 = "handleRequest compareCodes twoPerHourConfig (anonymousCount 2 3601000)
                  Map.empty 3000 ?r"
  note t = free_tier_check_and_consume
  have cfg: "freeRatelimit twoPerHourConfig = 2"
    "freeRateLimitResetSeconds twoPerHourConfig = 3600"
    by (simp_all add: twoPerHourConfig_def defaultConfig_def)
  have store: "\<forall>k. \<not> get_throws (emptyKv :: string kv) k \<and> \<not> set_throws (emptyKv :: string kv) k"
    "ratelimits (emptyKv :: string kv) ''anonymous'' = None"
    by (simp_all add: emptyKv_def)
  have miss: "\<forall>v. getFromCache toBoolean_string emptyKv k \<noteq> Inr (Hit v)"
    "\<forall>v. getFromCache toBoolean_string (anonymousCount n reset) k \<noteq> Inr (Hit v)" for k n reset
    by (simp_all add: getFromCache_def anonymousCount_def emptyKv_def)
  have u: "determineUserState s (parseRequestData ?r) = Anonymous ''anonymous''"
    for s :: "string kv"
    by (simp add: determineUserState_def getRequest_parsed)
  have h1: "handleRequest compareCodes twoPerHourConfig emptyKv Map.empty 1000 ?r
         = (Inl TypeError, anonymousCount 1 3601000)"
    by (rule twoPerHour_first)
  have h2: "handleRequest compareCodes twoPerHourConfig (anonymousCount 1 3601000) Map.empty 2000 ?r
         = (Inl TypeError, anonymousCount 2 3601000)"
    using twoPerHour_step [of 1 2000 3601000] by simp
  have h3: "?h3 = (fst ?h3, snd ?h3)"
    by simp
  have seq: "checkRateLimit twoPerHourConfig emptyKv 1000
               (determineUserState (emptyKv :: string kv) (parseRequestData ?r))
          = (Inr (Allowed 1), anonymousCount 1 3601000)
      \<and> checkRateLimit twoPerHourConfig (anonymousCount 1 3601000) 2000
               (determineUserState (anonymousCount 1 3601000) (parseRequestData ?r))
          = (Inr (Allowed 0), anonymousCount 2 3601000)
      \<and> checkRateLimit twoPerHourConfig (anonymousCount 2 3601000) 3000
               (determineUserState (anonymousCount 2 3601000) (parseRequestData ?r))
          = (Inr (Exceeded (1000 + 3600 * 1000)), snd ?h3)
      \<and> (Inl TypeError :: exception + response) = Inl TypeError
      \<and> (Inl TypeError :: exception + response) = Inl TypeError
      \<and> (\<exists>resp3. fst ?h3 = Inr resp3 \<and> status resp3 = 402
           \<and> content resp3
               = JsonBody \<lparr>body_error = ''Payment Required'',
                   message = ''Free rate limit exceeded. Limit: 2 requests per 3600 seconds.'',
                   payment_link = Map.empty ''STRIPE_PAYMENT_LINK'', body_status = 402\<rparr>)
      \<and> stringIncludes ''Free rate limit exceeded. Limit: 2 requests per 3600 seconds.''
            ''2 requests per 3600''"
    by (rule t [where config = twoPerHourConfig and kv = emptyKv and ?t1.0 = 1000
          and ?t2.0 = 2000 and ?t3.0 = 3000 and ?r1.0 = ?r and ?r2.0 = ?r and ?r3.0 = ?r
          and lc = compareCodes and env = Map.empty
          and ?kv1.0 = "anonymousCount 1 3601000" and ?kv2.0 = "anonymousCount 2 3601000"
          and ?kv3.0 = "snd ?h3" and ?out3.0 = "fst ?h3"
          and ?out1.0 = "Inl TypeError" and ?out2.0 = "Inl TypeError",
          THEN conjunct2, rule_format])
      (use cfg store miss h1 h2 h3 getRequest_parsed [of "''/x''" "[]"] in \<open>simp\<close>)
  have g2: "getRateLimitData twoPerHourConfig (anonymousCount n 3601000) now ''anonymous''
      = Inr \<lparr>count = n, resetTime = 3601000\<rparr>" if "now \<le> 3601000" for n now
    using that by (simp add: getRateLimitData_def anonymousCount_def emptyKv_def)
  have c2: "checkRateLimit twoPerHourConfig (anonymousCount 2 3601000) 3000
         (Insufficient_balance (account ''anonymous'' 0))
       = (Inr (Exceeded 3601000), anonymousCount 2 3601000)"
    using t [where userState' = "Insufficient_balance (account ''anonymous'' 0)"
        and clientId = "''anonymous''"
        and config = twoPerHourConfig and kv = "anonymousCount 2 3601000" and now = 3000
        and d = "\<lparr>count = 2, resetTime = 3601000\<rparr>", THEN conjunct1] g2 [of 3000 2]
    by (simp add: cfg account_def)
  have third: "?h3 = (Inr (createPaymentRequiredResponse Map.empty
                   ''Free rate limit exceeded. Limit: 2 requests per 3600 seconds.''),
                 anonymousCount 2 3601000)"
  proof -
    have "checkRateLimit twoPerHourConfig (anonymousCount 2 3601000) 3000
               (determineUserState (anonymousCount 2 3601000) (parseRequestData ?r))
          = (Inr (Exceeded 3601000), anonymousCount 2 3601000)"
      using c2 by (simp add: u checkRateLimit_def account_def)
    then show ?thesis
      unfolding handleRequest_miss [OF getRequest_parsed(1) miss(2) [rule_format]]
      by (simp add: handleCacheMiss_exceeded [where t = 3601000]
          rateLimitMessage_2_3600 [OF cfg])
  qed
  show ?thesis
    using seq c2 h1 h2 third by (simp add: u createPaymentRequiredResponse_def)
qed

subsection \<open>The cache key\<close>

lemma consistentOn_total:
  "consistentOn lc ks \<Longrightarrow> a \<in> set ks \<Longrightarrow> b \<in> set ks \<Longrightarrow> lc a b \<le> 0 \<or> lc b a \<le> 0"
  unfolding consistentOn_def by blast

lemma consistentOn_trans:
  "consistentOn lc ks \<Longrightarrow> a \<in> set ks \<Longrightarrow> b \<in> set ks \<Longrightarrow> c \<in> set ks \<Longrightarrow>
     lc a b \<le> 0 \<Longrightarrow> lc b c \<le> 0 \<Longrightarrow> lc a c \<le> 0"
  unfolding consistentOn_def by blast

lemma consistentOn_subset:
  assumes "consistentOn lc ks" and "set ks' \<subseteq> set ks"
  shows "consistentOn lc ks'"
  unfolding consistentOn_def
proof (intro conjI ballI impI)
  fix a b
  assume "a \<in> set ks'" "b \<in> set ks'"
  with assms(2) have "a \<in> set ks" "b \<in> set ks"
    by blast+
  then show "lc a b \<le> 0 \<or> lc b a \<le> 0"
    by (rule consistentOn_total [OF assms(1)])
next
  fix a b c
  assume "a \<in> set ks'" "b \<in> set ks'" "c \<in> set ks'" and le: "lc a b \<le> 0 \<and> lc b c \<le> 0"
  with assms(2) have "a \<in> set ks" "b \<in> set ks" "c \<in> set ks"
    by blast+
  then show "lc a c \<le> 0"
    using le by (blast intro: consistentOn_trans [OF assms(1)])
qed

lemma mset_insertEntry: "mset (insertEntry lc x xs) = add_mset x (mset xs)"
  by (induction xs) auto

lemma mset_sortEntries: "mset (sortEntries lc xs) = mset xs"
  by (induction xs) (simp_all add: sortEntries_def mset_insertEntry)

lemma set_insertEntry: "set (insertEntry lc x xs) = insert x (set xs)"
  by (induction xs) auto

lemma set_sortEntries: "set (sortEntries lc xs) = set xs"
  using mset_sortEntries [of lc xs] by (metis set_mset_mset)

lemma sorted_insertEntry:
  assumes "consistentOn lc (map fst (x # xs))"
    and "sorted_wrt (keyOrder lc) xs"
  shows "sorted_wrt (keyOrder lc) (insertEntry lc x xs)"
  using assms
proof (induction xs)
  case Nil
  then show ?case by simp
next
  case (Cons y ys)
  have c: "consistentOn lc (map fst (x # ys))"
    by (rule consistentOn_subset [OF Cons.prems(1)]) auto
  have sy: "sorted_wrt (keyOrder lc) ys" and yz: "\<forall>z\<in>set ys. keyOrder lc y z"
    using Cons.prems(2) by simp_all
  show ?case
  proof (cases "lc (fst x) (fst y) \<le> 0")
    case True
    have "keyOrder lc x z" if "z \<in> set ys" for z
    proof (rule consistentOn_trans [OF Cons.prems(1), of "fst x" "fst y" "fst z"])
      show "fst x \<in> set (map fst (x # y # ys))" by simp
      show "fst y \<in> set (map fst (x # y # ys))" by simp
      show "fst z \<in> set (map fst (x # y # ys))" using that by simp
      show "lc (fst x) (fst y) \<le> 0" by (rule True)
      show "lc (fst y) (fst z) \<le> 0" using yz that by blast
    qed
    then have "\<forall>z\<in>set (y # ys). keyOrder lc x z"
      using True by simp
    then have "sorted_wrt (keyOrder lc) (x # y # ys)"
      using Cons.prems(2) by (simp only: sorted_wrt.simps) blast
    then show ?thesis
      using True by simp
  next
    case False
    have "lc (fst x) (fst y) \<le> 0 \<or> lc (fst y) (fst x) \<le> 0"
      by (rule consistentOn_total [OF Cons.prems(1)]) simp_all
    with False have yx: "keyOrder lc y x"
      by blast
    have ins: "sorted_wrt (keyOrder lc) (insertEntry lc x ys)"
      by (rule Cons.IH [OF c sy])
    have "\<forall>z\<in>set (insertEntry lc x ys). keyOrder lc y z"
      using yx yz by (simp add: set_insertEntry)
    with ins have "sorted_wrt (keyOrder lc) (y # insertEntry lc x ys)"
      by simp
    then show ?thesis
      using False by simp
  qed
qed

lemma sorted_sortEntries:
  assumes "consistentOn lc (map fst xs)"
  shows "sorted_wrt (keyOrder lc) (sortEntries lc xs)"
  using assms
proof (induction xs)
  case Nil
  then show ?case by (simp add: sortEntries_def)
next
  case (Cons x xs)
  have c: "consistentOn lc (map fst xs)"
    by (rule consistentOn_subset [OF Cons.prems]) auto
  have "consistentOn lc (map fst (x # sortEntries lc xs))"
    by (rule consistentOn_subset [OF Cons.prems]) (simp add: set_sortEntries)
  then have "sorted_wrt (keyOrder lc) (insertEntry lc x (sortEntries lc xs))"
    using Cons.IH [OF c] by (rule sorted_insertEntry)
  then show ?case
    by (simp add: sortEntries_def)
qed

lemma filter_insertEntry:
  assumes "lc (fst x) (fst x) \<le> 0"
  shows "filter (\<lambda>e. fst e = k) (insertEntry lc x xs)
           = (if fst x = k then x # filter (\<lambda>e. fst e = k) xs
              else filter (\<lambda>e. fst e = k) xs)"
  using assms by (induction xs) auto

lemma filter_sortEntries:
  assumes "\<forall>a\<in>set (map fst xs). lc a a \<le> 0"
  shows "filter (\<lambda>e. fst e = k) (sortEntries lc xs) = filter (\<lambda>e. fst e = k) xs"
  using assms
proof (induction xs)
  case Nil
  then show ?case by (simp add: sortEntries_def)
next
  case (Cons x xs)
  then have "lc (fst x) (fst x) \<le> 0"
    by simp
  then have "filter (\<lambda>e. fst e = k) (insertEntry lc x (sortEntries lc xs))
           = (if fst x = k then x # filter (\<lambda>e. fst e = k) (sortEntries lc xs)
              else filter (\<lambda>e. fst e = k) (sortEntries lc xs))"
    by (rule filter_insertEntry)
  with Cons show ?case
    by (simp add: sortEntries_def)
qed

lemma tiesAreEqualOn_subset:
  "tiesAreEqualOn lc ks \<Longrightarrow> set ks' \<subseteq> set ks \<Longrightarrow> tiesAreEqualOn lc ks'"
  unfolding tiesAreEqualOn_def by blast

lemma stable_sorted_unique:
  assumes "sorted_wrt (keyOrder lc) xs" and "sorted_wrt (keyOrder lc) ys"
    and "mset xs = mset ys"
    and "\<forall>k. filter (\<lambda>e. fst e = k) xs = filter (\<lambda>e. fst e = k) ys"
    and "tiesAreEqualOn lc (map fst xs)"
  shows "xs = ys"
  using assms
proof (induction xs arbitrary: ys)
  case Nil
  then show ?case by simp
next
  case (Cons x xs)
  from Cons.prems(3) have "ys \<noteq> []"
    by auto
  then obtain y ys' where ys: "ys = y # ys'"
    by (cases ys) auto
  have xin: "x \<in> set ys"
    using Cons.prems(3) by (metis list.set_intros(1) set_mset_mset)
  have yin: "y \<in> set (x # xs)"
    using Cons.prems(3) ys by (metis list.set_intros(1) set_mset_mset)
  have key: "fst x = fst y"
  proof (cases "x = y")
    case True
    then show ?thesis by simp
  next
    case False
    with xin ys have "x \<in> set ys'"
      by simp
    then have 1: "lc (fst y) (fst x) \<le> 0"
      using Cons.prems(2) ys by simp
    from False yin have "y \<in> set xs"
      by auto
    then have 2: "lc (fst x) (fst y) \<le> 0"
      using Cons.prems(1) by simp
    have "fst x \<in> set (map fst (x # xs))" "fst y \<in> set (map fst (x # xs))"
      using yin by auto
    with 1 2 Cons.prems(5) show ?thesis
      unfolding tiesAreEqualOn_def by blast
  qed
  have "filter (\<lambda>e. fst e = fst x) (x # xs) = filter (\<lambda>e. fst e = fst x) (y # ys')"
    using Cons.prems(4) ys by blast
  then have xy: "x = y"
    using key by simp
  have f: "\<forall>k. filter (\<lambda>e. fst e = k) xs = filter (\<lambda>e. fst e = k) ys'"
  proof
    fix k
    have "filter (\<lambda>e. fst e = k) (x # xs) = filter (\<lambda>e. fst e = k) (x # ys')"
      using Cons.prems(4) ys xy by blast
    then show "filter (\<lambda>e. fst e = k) xs = filter (\<lambda>e. fst e = k) ys'"
      by (simp split: if_splits)
  qed
  have "xs = ys'"
  proof (rule Cons.IH)
    show "sorted_wrt (keyOrder lc) xs"
      using Cons.prems(1) by simp
    show "sorted_wrt (keyOrder lc) ys'"
      using Cons.prems(2) ys by simp
    show "mset xs = mset ys'"
      using Cons.prems(3) ys xy by simp
    show "\<forall>k. filter (\<lambda>e. fst e = k) xs = filter (\<lambda>e. fst e = k) ys'"
      by (rule f)
    show "tiesAreEqualOn lc (map fst xs)"
      by (rule tiesAreEqualOn_subset [OF Cons.prems(5)]) auto
  qed
  with xy ys show ?case
    by simp
qed

lemma sortEntries_reorder:
  assumes c: "consistentOn lc (map fst ps)"
    and t: "tiesAreEqualOn lc (map fst ps)"
    and m: "mset ps = mset qs"
    and f: "\<forall>k. filter (\<lambda>e. fst e = k) ps = filter (\<lambda>e. fst e = k) qs"
  shows "sortEntries lc ps = sortEntries lc qs"
proof (rule stable_sorted_unique)
  have s: "set qs = set ps"
    using m by (metis set_mset_mset)
  have cq: "consistentOn lc (map fst qs)"
    by (rule consistentOn_subset [OF c]) (simp add: s)
  have rp: "\<forall>a\<in>set (map fst ps). lc a a \<le> 0"
    using consistentOn_total [OF c] by blast
  have rq: "\<forall>a\<in>set (map fst qs). lc a a \<le> 0"
    using consistentOn_total [OF cq] by blast
  show "sorted_wrt (keyOrder lc) (sortEntries lc ps)"
    by (rule sorted_sortEntries [OF c])
  show "sorted_wrt (keyOrder lc) (sortEntries lc qs)"
    by (rule sorted_sortEntries [OF cq])
  show "mset (sortEntries lc ps) = mset (sortEntries lc qs)"
    by (simp add: mset_sortEntries m)
  show "\<forall>k. filter (\<lambda>e. fst e = k) (sortEntries lc ps)
           = filter (\<lambda>e. fst e = k) (sortEntries lc qs)"
    using f filter_sortEntries [of ps lc] filter_sortEntries [of qs lc] rp rq by simp
  show "tiesAreEqualOn lc (map fst (sortEntries lc ps))"
    by (rule tiesAreEqualOn_subset [OF t]) (simp add: set_sortEntries)
qed

lemma filter_key_distinct:
  assumes "distinct (map fst ps)"
  shows "length (filter (\<lambda>e. fst e = k) ps) \<le> 1"
  using assms
proof (induction ps)
  case Nil
  then show ?case by simp
next
  case (Cons p ps)
  show ?case
  proof (cases "fst p = k")
    case True
    with Cons.prems have "k \<notin> fst ` set ps"
      by simp
    then have "\<forall>e\<in>set ps. fst e \<noteq> k"
      by force
    then have "filter (\<lambda>e. fst e = k) ps = []"
      by (simp add: filter_empty_conv)
    with True show ?thesis by simp
  next
    case False
    with Cons show ?thesis by simp
  qed
qed

lemma short_list_by_mset:
  assumes "mset xs = mset ys" and "length xs \<le> 1"
  shows "xs = ys"
proof -
  have l: "length ys = length xs"
    using assms(1) by (metis size_mset)
  show ?thesis
  proof (cases xs)
    case Nil
    with assms(1) show ?thesis by simp
  next
    case (Cons x xs')
    with assms(2) have xs: "xs = [x]"
      by simp
    with l obtain y where ys: "ys = [y]"
      by (cases ys) auto
    with xs assms(1) show ?thesis
      by simp
  qed
qed

lemma distinct_keys_same_order:
  assumes "distinct (map fst ps)" and "mset ps = mset qs"
  shows "\<forall>k. filter (\<lambda>e. fst e = k) ps = filter (\<lambda>e. fst e = k) qs"
proof
  fix k
  have "mset (filter (\<lambda>e. fst e = k) ps) = mset (filter (\<lambda>e. fst e = k) qs)"
    using assms(2) by simp
  then show "filter (\<lambda>e. fst e = k) ps = filter (\<lambda>e. fst e = k) qs"
    by (rule short_list_by_mset) (rule filter_key_distinct [OF assms(1)])
qed

text \<open>
  Claim C5, as amended. For a comparator that is consistent on the keys of the query and
  for which keys that compare equal are the same string: two queries with the same
  parameters, in which no key is repeated or the parameters of each repeated key come in
  the same relative order, get the same cache key. The key is
  \<^verbatim>\<open>cache:v{version}:{pathname}:{params}:{format}\<close>, with the parameters sorted by key
  and joined as \<^verbatim>\<open>key=value\<close> with \<^verbatim>\<open>&\<close>. The sort looks at the keys only and is stable:
  parameters with the same key keep the order they have in the query.
\<close>

theorem createCacheKey_reorder:
  assumes "consistentOn localeCompare (map fst ps)"
    and "tiesAreEqualOn localeCompare (map fst ps)"
    and "mset ps = mset qs"
    and "distinct (map fst ps)
         \<or> (\<forall>k. filter (\<lambda>e. fst e = k) ps = filter (\<lambda>e. fst e = k) qs)"
  shows "createCacheKey localeCompare config path ps format
           = createCacheKey localeCompare config path qs format
       \<and> createCacheKey localeCompare config path ps format
           = ''cache:v'' @ numberToString (version config) @ '':'' @ path @ '':''
               @ joinWith ''&''
                   (map (\<lambda>(key, val). key @ ''='' @ val) (sortEntries localeCompare ps))
               @ '':'' @ formatName format
       \<and> sorted_wrt (\<lambda>a b. localeCompare (fst a) (fst b) \<le> 0) (sortEntries localeCompare ps)
       \<and> mset (sortEntries localeCompare ps) = mset ps
       \<and> (\<forall>k. filter (\<lambda>e. fst e = k) (sortEntries localeCompare ps)
                = filter (\<lambda>e. fst e = k) ps)"
proof -
  have f: "\<forall>k. filter (\<lambda>e. fst e = k) ps = filter (\<lambda>e. fst e = k) qs"
    using assms(3,4) distinct_keys_same_order [of ps qs] by blast
  have "sortEntries localeCompare ps = sortEntries localeCompare qs"
    by (rule sortEntries_reorder [OF assms(1,2,3) f])
  then have "createCacheKey localeCompare config path ps format
           = createCacheKey localeCompare config path qs format"
    by (simp add: createCacheKey_def)
  moreover have "createCacheKey localeCompare config path ps format
           = ''cache:v'' @ numberToString (version config) @ '':'' @ path @ '':''
               @ joinWith ''&''
                   (map (\<lambda>(key, val). key @ ''='' @ val) (sortEntries localeCompare ps))
               @ '':'' @ formatName format"
    by (simp add: createCacheKey_def)
  moreover have "\<forall>a\<in>set (map fst ps). localeCompare a a \<le> 0"
    using consistentOn_total [OF assms(1)] by blast
  then have "\<forall>k. filter (\<lambda>e. fst e = k) (sortEntries localeCompare ps)
                = filter (\<lambda>e. fst e = k) ps"
    using filter_sortEntries [of ps localeCompare] by blast
  moreover note sorted_sortEntries [OF assms(1)] mset_sortEntries [of localeCompare ps]
  ultimately show ?thesis
    by blast
qed

text \<open>
  For the path \<^verbatim>\<open>/x\<close> the queries \<^verbatim>\<open>b=2&a=1\<close> and \<^verbatim>\<open>a=1&b=2\<close> both get
  \<^verbatim>\<open>cache:v1:/x:a=1&b=2:<format>\<close>. The queries \<^verbatim>\<open>a=1&b=3&a=2\<close> and \<^verbatim>\<open>b=3&a=1&a=2\<close>
  repeat the key \<^verbatim>\<open>a\<close> with its values in the same order, and get the same key.
\<close>

theorem createCacheKey_reorder_witness:
  "createCacheKey compareCodes defaultConfig ''/x'' [(''b'', ''2''), (''a'', ''1'')] Json
     = createCacheKey compareCodes defaultConfig ''/x'' [(''a'', ''1''), (''b'', ''2'')] Json
   \<and> createCacheKey compareCodes defaultConfig ''/x'' [(''b'', ''2''), (''a'', ''1'')] Json
     = ''cache:v1:/x:a=1&b=2:json''
   \<and> createCacheKey compareCodes defaultConfig ''/x'' [(''b'', ''2''), (''a'', ''1'')] Html
     = ''cache:v1:/x:a=1&b=2:html''
   \<and> createCacheKey compareCodes defaultConfig ''/x'' [(''a'', ''1''), (''b'', ''2'')] Markdown
     = ''cache:v1:/x:a=1&b=2:markdown''
   \<and> createCacheKey compareCodes defaultConfig ''/x''
         [(''a'', ''1''), (''b'', ''3''), (''a'', ''2'')] Json
     = createCacheKey compareCodes defaultConfig ''/x''
         [(''b'', ''3''), (''a'', ''1''), (''a'', ''2'')] Json
   \<and> createCacheKey compareCodes defaultConfig ''/x''
         [(''a'', ''1''), (''b'', ''3''), (''a'', ''2'')] Json
     = ''cache:v1:/x:a=1&a=2&b=3:json''"
proof -
  have c: "consistentOn compareCodes (map fst [(''b'', ''2''), (''a'', ''1'')])"
    by (simp add: consistentOn_def)
  have t: "tiesAreEqualOn compareCodes (map fst [(''b'', ''2''), (''a'', ''1'')])"
    by (simp add: tiesAreEqualOn_def)
  have m: "mset [(''b'', ''2''), (''a'', ''1'')] = mset [(''a'', ''1''), (''b'', ''2'')]"
    by simp
  have d: "distinct (map fst [(''b'', ''2''), (''a'', ''1'')])
         \<or> (\<forall>k. filter (\<lambda>e. fst e = k) [(''b'', ''2''), (''a'', ''1'')]
                  = filter (\<lambda>e. fst e = k) [(''a'', ''1''), (''b'', ''2'')])"
    by simp
  have s: "sortEntries compareCodes [(''b'', ''2''), (''a'', ''1'')]
             = [(''a'', ''1''), (''b'', ''2'')]"
    by (simp add: sortEntries_def)
  have v: "numberToString (version defaultConfig) = ''1''"
    by (simp add: defaultConfig_def numberToString_examples)
  note r = createCacheKey_reorder [OF c t m d, of defaultConfig "''/x''"]
  have k: "createCacheKey compareCodes defaultConfig ''/x'' [(''b'', ''2''), (''a'', ''1'')] f
      = ''cache:v1:/x:a=1&b=2:'' @ formatName f" for f
    using r [of f, THEN conjunct2, THEN conjunct1] by (simp add: s v)
  have e: "createCacheKey compareCodes defaultConfig ''/x'' [(''a'', ''1''), (''b'', ''2'')] f
      = createCacheKey compareCodes defaultConfig ''/x'' [(''b'', ''2''), (''a'', ''1'')] f" for f
    by (rule r [of f, THEN conjunct1, symmetric])
  let ?ps = "[(''a'', ''1''), (''b'', ''3''), (''a'', ''2'')]"
  let ?qs = "[(''b'', ''3''), (''a'', ''1''), (''a'', ''2'')]"
  have c': "consistentOn compareCodes (map fst ?ps)"
    by (simp add: consistentOn_def)
  have t': "tiesAreEqualOn compareCodes (map fst ?ps)"
    by (simp add: tiesAreEqualOn_def)
  have m': "mset ?ps = mset ?qs"
    by simp
  have d': "distinct (map fst ?ps)
         \<or> (\<forall>k. filter (\<lambda>e. fst e = k) ?ps = filter (\<lambda>e. fst e = k) ?qs)"
    by simp
  have s': "sortEntries compareCodes ?ps = [(''a'', ''1''), (''a'', ''2''), (''b'', ''3'')]"
    by (simp add: sortEntries_def)
  note r' = createCacheKey_reorder [OF c' t' m' d', of defaultConfig "''/x''" Json]
  have e': "createCacheKey compareCodes defaultConfig ''/x'' ?ps Json
      = createCacheKey compareCodes defaultConfig ''/x'' ?qs Json"
    by (rule r' [THEN conjunct1])
  have k': "createCacheKey compareCodes defaultConfig ''/x'' ?ps Json
      = ''cache:v1:/x:a=1&a=2&b=3:json''"
    using r' [THEN conjunct2, THEN conjunct1] by (simp add: s' v)
  show ?thesis
    using e' k' by (simp add: e k)
qed

text \<open>
  The claim as it stands fails for a repeated key: \<^verbatim>\<open>a=1&a=2\<close> and \<^verbatim>\<open>a=2&a=1\<close> hold
  the same key-value pairs and get different cache keys. On this input the comparator is
  only asked to compare \<^verbatim>\<open>a\<close> with itself.
\<close>

theorem createCacheKey_repeated_key_counterexample:
  "mset [(''a'', ''1''), (''a'', ''2'')] = mset [(''a'', ''2''), (''a'', ''1'')]
   \<and> createCacheKey compareCodes defaultConfig ''/x'' [(''a'', ''1''), (''a'', ''2'')] Json
       = ''cache:v1:/x:a=1&a=2:json''
   \<and> createCacheKey compareCodes defaultConfig ''/x'' [(''a'', ''2''), (''a'', ''1'')] Json
       = ''cache:v1:/x:a=2&a=1:json''
   \<and> createCacheKey compareCodes defaultConfig ''/x'' [(''a'', ''1''), (''a'', ''2'')] Json
       \<noteq> createCacheKey compareCodes defaultConfig ''/x'' [(''a'', ''2''), (''a'', ''1'')] Json"
  by (simp add: createCacheKey_def sortEntries_def defaultConfig_def numberToString_examples)

subsection \<open>The context of the business handler\<close>







subsection \<open>Response composition\<close>

lemma startsWith_append: "startsWith (m @ t) m"
  by (induction m) auto

lemma startsWith_length: "startsWith s m \<Longrightarrow> length m \<le> length s"
  by (induction s m rule: startsWith.induct) auto

lemma startsWith_append_other:
  "c \<notin> set m \<Longrightarrow> startsWith (l @ c # rest) m = startsWith l m"
proof (induction l m rule: startsWith.induct)
  case (1 s)
  then show ?case by simp
next
  case (2 p ps)
  then show ?case by simp
next
  case (3 c cs p ps)
  then show ?case by simp
qed

lemma startsWith_first: "startsWith (c # cs) (p # ps) \<Longrightarrow> c = p"
  by simp

text \<open>The heading pass.\<close>

lemma replaceHeading_unchanged:
  assumes "\<forall>c\<in>set s. \<not> lineTerminator c" and "b \<longrightarrow> \<not> startsWith s m"
  shows "replaceHeading m opn cls b s = s"
  using assms
proof (induction s arbitrary: b)
  case Nil
  then show ?case by simp
next
  case (Cons c cs)
  then have "replaceHeading m opn cls (lineTerminator c) cs = cs"
    by simp
  with Cons.prems show ?case
    by auto
qed

lemma replaceHeading_line:
  assumes "\<forall>c\<in>set t. \<not> lineTerminator c" and "m \<noteq> []"
  shows "replaceHeading m opn cls True (m @ t) = opn @ t @ cls"
proof -
  obtain p ps where m: "m = p # ps"
    using assms(2) by (cases m) auto
  have tw: "takeWhile (\<lambda>x. \<not> lineTerminator x) t = t"
    using assms(1) by (simp add: takeWhile_eq_all_conv)
  have dw: "dropWhile (\<lambda>x. \<not> lineTerminator x) t = []"
    using assms(1) by simp
  have "replaceHeading m opn cls True (p # (ps @ t))
          = opn @ takeWhile (\<lambda>x. \<not> lineTerminator x) (drop (length m) (p # (ps @ t))) @ cls
             @ replaceHeading m opn cls False
                 (dropWhile (\<lambda>x. \<not> lineTerminator x) (drop (length m) (p # (ps @ t))))"
    using startsWith_append [of m t] assms(2) by (simp add: m)
  moreover have "drop (length m) (p # (ps @ t)) = t"
    by (simp add: m)
  ultimately show ?thesis
    by (simp add: m tw dw)
qed

lemma drop_append_le: "n \<le> length xs \<Longrightarrow> drop n (xs @ ys) = drop n xs @ ys"
  by simp

lemma takeWhile_append_stop:
  "\<not> P c \<Longrightarrow> takeWhile P (u @ c # rest) = takeWhile P u"
  by (induction u) auto

lemma dropWhile_append_stop:
  "\<not> P c \<Longrightarrow> dropWhile P (u @ c # rest) = dropWhile P u @ c # rest"
  by (induction u) auto

lemma replaceHeading_newline:
  assumes "CHR 0x0A \<notin> set m"
  shows "replaceHeading m opn cls b (l @ CHR 0x0A # rest)
           = replaceHeading m opn cls b l @ CHR 0x0A # replaceHeading m opn cls True rest"
  using assms
proof (induction m opn cls b l rule: replaceHeading.induct)
  case (1 marker opn cls atLineStart)
  have "\<not> startsWith (CHR 0x0A # rest) marker \<or> marker = []"
    using 1 by (cases marker) auto
  then show ?case
    by (auto simp: lineTerminator_def)
next
  case (2 marker opn cls atLineStart c cs)
  let ?nt = "\<lambda>x. \<not> lineTerminator x"
  have sw: "startsWith ((c # cs) @ CHR 0x0A # rest) marker = startsWith (c # cs) marker"
    by (rule startsWith_append_other [OF 2(3)])
  show ?case
  proof (cases "atLineStart \<and> marker \<noteq> [] \<and> startsWith (c # cs) marker")
    case True
    then have len: "length marker \<le> length (c # cs)"
      using startsWith_length by blast
    then have dr: "drop (length marker) ((c # cs) @ CHR 0x0A # rest)
        = drop (length marker) (c # cs) @ CHR 0x0A # rest"
      by (rule drop_append_le)
    have nl: "\<not> ?nt (CHR 0x0A)"
      by (simp add: lineTerminator_def)
    have ih: "replaceHeading marker opn cls False
                (dropWhile ?nt (drop (length marker) (c # cs)) @ CHR 0x0A # rest)
              = replaceHeading marker opn cls False
                  (dropWhile ?nt (drop (length marker) (c # cs)))
                @ CHR 0x0A # replaceHeading marker opn cls True rest"
      using 2(1) [OF True 2(3)] .
    have "replaceHeading marker opn cls atLineStart ((c # cs) @ CHR 0x0A # rest)
        = opn @ takeWhile ?nt (drop (length marker) ((c # cs) @ CHR 0x0A # rest)) @ cls
             @ replaceHeading marker opn cls False
                 (dropWhile ?nt (drop (length marker) ((c # cs) @ CHR 0x0A # rest)))"
      using True sw by simp
    also have "\<dots> = opn @ takeWhile ?nt (drop (length marker) (c # cs)) @ cls
             @ replaceHeading marker opn cls False
                 (dropWhile ?nt (drop (length marker) (c # cs)) @ CHR 0x0A # rest)"
      unfolding dr
      by (simp only: takeWhile_append_stop [of ?nt, OF nl] dropWhile_append_stop [of ?nt, OF nl])
    also have "\<dots> = replaceHeading marker opn cls atLineStart (c # cs)
             @ CHR 0x0A # replaceHeading marker opn cls True rest"
      using True by (simp add: ih)
    finally show ?thesis .
  next
    case False
    have ih: "replaceHeading marker opn cls (lineTerminator c) (cs @ CHR 0x0A # rest)
              = replaceHeading marker opn cls (lineTerminator c) cs
                @ CHR 0x0A # replaceHeading marker opn cls True rest"
      using 2(2) [OF False 2(3)] .
    have "replaceHeading marker opn cls atLineStart ((c # cs) @ CHR 0x0A # rest)
        = c # replaceHeading marker opn cls (lineTerminator c) (cs @ CHR 0x0A # rest)"
      using False sw by auto
    also have "\<dots> = replaceHeading marker opn cls atLineStart (c # cs)
             @ CHR 0x0A # replaceHeading marker opn cls True rest"
      using False by (auto simp: ih)
    finally show ?thesis .
  qed
qed

text \<open>The delimiter passes.\<close>

lemma startsWith_hd: "d \<noteq> [] \<Longrightarrow> hd d \<noteq> c \<Longrightarrow> \<not> startsWith (c # cs) d"
  by (cases d) auto

lemma lazyUntil_none:
  assumes "d \<noteq> []" and "hd d \<notin> set s"
  shows "lazyUntil d s = None"
  using assms
proof (induction s)
  case Nil
  then show ?case by simp
next
  case (Cons c cs)
  then have "\<not> startsWith (c # cs) d"
    by (simp add: startsWith_hd)
  with Cons show ?case
    by simp
qed

lemma lazyUntil_found:
  assumes "d \<noteq> []" and "hd d \<notin> set t" and "\<forall>c\<in>set t. \<not> lineTerminator c"
  shows "lazyUntil d (t @ d @ rest) = Some (t, rest)"
  using assms
proof (induction t)
  case Nil
  obtain p ps where d: "d = p # ps"
    using Nil(1) by (cases d) auto
  have "startsWith (p # (ps @ rest)) d"
    using startsWith_append [of d rest] by (simp add: d)
  then show ?case
    by (simp add: d)
next
  case (Cons c cs)
  then have "\<not> startsWith (c # (cs @ d @ rest)) d"
    by (simp add: startsWith_hd)
  with Cons show ?case
    by simp
qed

lemma replaceDelimited_copy:
  assumes "d \<noteq> []" and "hd d \<notin> set u"
  shows "replaceDelimited d opn cls (u @ v) = u @ replaceDelimited d opn cls v"
  using assms
proof (induction u)
  case Nil
  then show ?case by simp
next
  case (Cons c cs)
  then have "\<not> startsWith (c # (cs @ v)) d"
    by (simp add: startsWith_hd)
  with Cons show ?case
    by simp
qed

lemma replaceDelimited_unchanged:
  assumes "d \<noteq> []" and "hd d \<notin> set u"
  shows "replaceDelimited d opn cls u = u"
  using replaceDelimited_copy [OF assms, of opn cls "[]"] by simp

lemma replaceDelimited_found:
  assumes "d \<noteq> []" and "hd d \<notin> set t" and "\<forall>c\<in>set t. \<not> lineTerminator c"
  shows "replaceDelimited d opn cls (d @ t @ d @ rest)
           = opn @ t @ cls @ replaceDelimited d opn cls rest"
proof -
  obtain p ps where d: "d = p # ps"
    using assms(1) by (cases d) auto
  have sw: "startsWith (p # (ps @ t @ d @ rest)) d"
    using startsWith_append [of d "t @ d @ rest"] by (simp add: d)
  have dr: "drop (length d) (p # (ps @ t @ d @ rest)) = t @ d @ rest"
    by (simp add: d)
  have "replaceDelimited d opn cls (p # (ps @ t @ d @ rest))
      = (case lazyUntil d (drop (length d) (p # (ps @ t @ d @ rest))) of
              Some (g, r) \<Rightarrow> opn @ g @ cls @ replaceDelimited d opn cls r
            | None \<Rightarrow> p # replaceDelimited d opn cls (ps @ t @ d @ rest))"
    using sw assms(1) by simp
  also have "\<dots> = opn @ t @ cls @ replaceDelimited d opn cls rest"
    unfolding dr by (simp add: lazyUntil_found [OF assms])
  finally show ?thesis
    by (simp add: d)
qed

lemma lazyUntil_newline:
  assumes "d \<noteq> []" and "CHR 0x0A \<notin> set d"
  shows "lazyUntil d (u @ CHR 0x0A # rest)
           = (case lazyUntil d u of
                None \<Rightarrow> None
              | Some (g, r) \<Rightarrow> Some (g, r @ CHR 0x0A # rest))"
  using assms
proof (induction u)
  case Nil
  then have "\<not> startsWith (CHR 0x0A # rest) d"
    by (cases d) auto
  with Nil show ?case
    by (simp add: lineTerminator_def)
next
  case (Cons c cs)
  have sw: "startsWith ((c # cs) @ CHR 0x0A # rest) d = startsWith (c # cs) d"
    by (rule startsWith_append_other [OF Cons.prems(2)])
  show ?case
  proof (cases "startsWith (c # cs) d")
    case True
    then have "length d \<le> length (c # cs)"
      by (rule startsWith_length)
    then have "drop (length d) ((c # cs) @ CHR 0x0A # rest)
        = drop (length d) (c # cs) @ CHR 0x0A # rest"
      by (rule drop_append_le)
    with True sw show ?thesis
      by simp
  next
    case False
    with sw Cons show ?thesis
      by (auto split: option.splits)
  qed
qed

lemma replaceDelimited_newline:
  assumes "CHR 0x0A \<notin> set d"
  shows "replaceDelimited d opn cls (l @ CHR 0x0A # rest)
           = replaceDelimited d opn cls l @ CHR 0x0A # replaceDelimited d opn cls rest"
  using assms
proof (induction d opn cls l rule: replaceDelimited.induct)
  case (1 delim opn cls)
  have "\<not> startsWith (CHR 0x0A # rest) delim \<or> delim = []"
    using 1 by (cases delim) auto
  then show ?case
    by auto
next
  case (2 delim opn cls c cs)
  have sw: "startsWith ((c # cs) @ CHR 0x0A # rest) delim = startsWith (c # cs) delim"
    by (rule startsWith_append_other [OF 2(4)])
  show ?case
  proof (cases "delim \<noteq> [] \<and> startsWith (c # cs) delim")
    case True
    then have "length delim \<le> length (c # cs)"
      using startsWith_length by blast
    then have dr: "drop (length delim) ((c # cs) @ CHR 0x0A # rest)
        = drop (length delim) (c # cs) @ CHR 0x0A # rest"
      by (rule drop_append_le)
    have lz: "lazyUntil delim (drop (length delim) (c # cs) @ CHR 0x0A # rest)
        = (case lazyUntil delim (drop (length delim) (c # cs)) of
                None \<Rightarrow> None
              | Some (g, r) \<Rightarrow> Some (g, r @ CHR 0x0A # rest))"
      using True 2(4) by (intro lazyUntil_newline) simp_all
    show ?thesis
    proof (cases "lazyUntil delim (drop (length delim) (c # cs))")
      case None
      have ih: "replaceDelimited delim opn cls (cs @ CHR 0x0A # rest)
          = replaceDelimited delim opn cls cs @ CHR 0x0A # replaceDelimited delim opn cls rest"
        using 2(1) [OF True None 2(4)] .
      have "replaceDelimited delim opn cls ((c # cs) @ CHR 0x0A # rest)
          = c # replaceDelimited delim opn cls (cs @ CHR 0x0A # rest)"
        using True sw lz None dr by simp
      also have "\<dots> = replaceDelimited delim opn cls (c # cs) @ CHR 0x0A
            # replaceDelimited delim opn cls rest"
        using True None by (simp add: ih)
      finally show ?thesis .
    next
      case (Some gr)
      obtain g r where gr: "gr = (g, r)"
        by (cases gr) auto
      have ih: "replaceDelimited delim opn cls (r @ CHR 0x0A # rest)
          = replaceDelimited delim opn cls r @ CHR 0x0A # replaceDelimited delim opn cls rest"
        using 2(2) [OF True Some gr [symmetric] 2(4)] .
      have "replaceDelimited delim opn cls ((c # cs) @ CHR 0x0A # rest)
          = opn @ g @ cls @ replaceDelimited delim opn cls (r @ CHR 0x0A # rest)"
        using True sw lz Some gr dr by simp
      also have "\<dots> = replaceDelimited delim opn cls (c # cs) @ CHR 0x0A
            # replaceDelimited delim opn cls rest"
        using True Some gr by (simp add: ih)
      finally show ?thesis .
    qed
  next
    case False
    have ih: "replaceDelimited delim opn cls (cs @ CHR 0x0A # rest)
        = replaceDelimited delim opn cls cs @ CHR 0x0A # replaceDelimited delim opn cls rest"
      using 2(3) [OF False 2(4)] .
    have "replaceDelimited delim opn cls ((c # cs) @ CHR 0x0A # rest)
        = c # replaceDelimited delim opn cls (cs @ CHR 0x0A # rest)"
      using False sw by auto
    also have "\<dots> = replaceDelimited delim opn cls (c # cs) @ CHR 0x0A
          # replaceDelimited delim opn cls rest"
      using False by (auto simp: ih)
    finally show ?thesis .
  qed
qed

lemma inlineText_append [simp]: "inlineText (a @ b) = (inlineText a \<and> inlineText b)"
  by (auto simp: inlineText_def)

lemma inlineText_Nil [simp]: "inlineText []"
  by (simp add: inlineText_def)

lemma inlineText_Cons [simp]:
  "inlineText (c # cs) = (c \<noteq> CHR 0x0A \<and> c \<noteq> CHR 0x0D \<and> c \<noteq> CHR ''*'' \<and> inlineText cs)"
  by (auto simp: inlineText_def lineTerminator_def)

lemma inlineText_no_terminator: "inlineText t \<Longrightarrow> \<forall>c\<in>set t. \<not> lineTerminator c"
  by (simp add: inlineText_def)

lemma inlineText_no_star: "inlineText t \<Longrightarrow> CHR ''*'' \<notin> set t"
  by (auto simp: inlineText_def)

lemma inlineText_no_newline: "inlineText t \<Longrightarrow> CHR 0x0A \<notin> set t"
  by (auto simp: inlineText_def lineTerminator_def)

text \<open>The line feed pass.\<close>

lemma replaceNewline_append: "replaceNewline (a @ b) = replaceNewline a @ replaceNewline b"
  by (simp add: replaceNewline_def)

lemma replaceNewline_unchanged: "CHR 0x0A \<notin> set s \<Longrightarrow> replaceNewline s = s"
  by (induction s) (auto simp: replaceNewline_def)

lemma replaceNewline_no_newline: "CHR 0x0A \<notin> set (replaceNewline s)"
  by (induction s) (auto simp: replaceNewline_def)

text \<open>Passes on a text without line terminators and asterisks.\<close>

lemma em_strong_unchanged:
  assumes "inlineText t"
  shows "replaceDelimited ''*'' opn cls t = t" "replaceDelimited ''**'' opn cls t = t"
  using inlineText_no_star [OF assms] by (simp_all add: replaceDelimited_unchanged)

lemma replaceHeading_inline:
  assumes "\<forall>c\<in>set t. \<not> lineTerminator c" and "\<not> startsWith t m"
  shows "replaceHeading m opn cls True t = t"
  using assms by (intro replaceHeading_unchanged) simp_all

lemma markdownToHtml_newline:
  "markdownToHtml (l @ CHR 0x0A # rest) = markdownToHtml l @ ''<br>'' @ markdownToHtml rest"
proof -
  have h: "replaceHeading m opn cls True (x @ CHR 0x0A # y)
      = replaceHeading m opn cls True x @ CHR 0x0A # replaceHeading m opn cls True y"
    if "CHR 0x0A \<notin> set m" for m opn cls x y
    using that by (rule replaceHeading_newline)
  have d: "replaceDelimited m opn cls (x @ CHR 0x0A # y)
      = replaceDelimited m opn cls x @ CHR 0x0A # replaceDelimited m opn cls y"
    if "CHR 0x0A \<notin> set m" for m opn cls x y
    using that by (rule replaceDelimited_newline)
  have n: "replaceNewline (x @ CHR 0x0A # y) = replaceNewline x @ ''<br>'' @ replaceNewline y"
    for x y
    by (simp add: replaceNewline_def)
  show ?thesis
    unfolding markdownToHtml_def
    by (simp add: h d n)
qed

lemma no_hash_start:
  assumes "\<not> startsWith pre ''#''"
  shows "\<not> startsWith (pre @ CHR ''*'' # x) (CHR ''#'' # m)"
  using assms by (cases pre) auto

lemma no_hash_start_plain:
  assumes "\<not> startsWith t ''#''"
  shows "\<not> startsWith t (CHR ''#'' # m)"
  using assms by (cases t) auto

lemma headings_unchanged:
  assumes "\<forall>c\<in>set s. \<not> lineTerminator c"
    and "\<not> startsWith s ''# ''" "\<not> startsWith s ''## ''" "\<not> startsWith s ''### ''"
  shows "replaceHeading ''### '' ''<h3>'' ''</h3>'' True
            (replaceHeading ''## '' ''<h2>'' ''</h2>'' True
              (replaceHeading ''# '' ''<h1>'' ''</h1>'' True s)) = s"
  using assms by (simp add: replaceHeading_inline)

lemma inline_passes_unchanged:
  assumes "inlineText s"
  shows "replaceNewline
      (replaceDelimited ''*'' ''<em>'' ''</em>''
        (replaceDelimited ''**'' ''<strong>'' ''</strong>'' s)) = s"
  using assms
  by (simp add: em_strong_unchanged replaceNewline_unchanged inlineText_no_newline)

lemma markdownToHtml_h1:
  assumes "inlineText t"
  shows "markdownToHtml (''# '' @ t) = ''<h1>'' @ t @ ''</h1>''"
proof -
  have nt: "\<forall>c\<in>set t. \<not> lineTerminator c"
    by (rule inlineText_no_terminator [OF assms])
  have 1: "replaceHeading ''# '' ''<h1>'' ''</h1>'' True (''# '' @ t) = ''<h1>'' @ t @ ''</h1>''"
    by (rule replaceHeading_line [OF nt]) simp
  have nt': "\<forall>c\<in>set (''<h1>'' @ t @ ''</h1>''). \<not> lineTerminator c"
    using nt by (auto simp: lineTerminator_def)
  have 2: "replaceHeading ''## '' ''<h2>'' ''</h2>'' True (''<h1>'' @ t @ ''</h1>'')
      = ''<h1>'' @ t @ ''</h1>''"
    by (rule replaceHeading_inline [OF nt']) simp
  have 3: "replaceHeading ''### '' ''<h3>'' ''</h3>'' True (''<h1>'' @ t @ ''</h1>'')
      = ''<h1>'' @ t @ ''</h1>''"
    by (rule replaceHeading_inline [OF nt']) simp
  have i: "inlineText (''<h1>'' @ t @ ''</h1>'')"
    using assms by simp
  show ?thesis
    unfolding markdownToHtml_def 1 2 3 by (rule inline_passes_unchanged [OF i])
qed

lemma markdownToHtml_h2:
  assumes "inlineText t"
  shows "markdownToHtml (''## '' @ t) = ''<h2>'' @ t @ ''</h2>''"
proof -
  have nt: "\<forall>c\<in>set t. \<not> lineTerminator c"
    by (rule inlineText_no_terminator [OF assms])
  have nt0: "\<forall>c\<in>set (''## '' @ t). \<not> lineTerminator c"
    using nt by (auto simp: lineTerminator_def)
  have 1: "replaceHeading ''# '' ''<h1>'' ''</h1>'' True (''## '' @ t) = ''## '' @ t"
    by (rule replaceHeading_inline [OF nt0]) simp
  have 2: "replaceHeading ''## '' ''<h2>'' ''</h2>'' True (''## '' @ t) = ''<h2>'' @ t @ ''</h2>''"
    by (rule replaceHeading_line [OF nt]) simp
  have nt': "\<forall>c\<in>set (''<h2>'' @ t @ ''</h2>''). \<not> lineTerminator c"
    using nt by (auto simp: lineTerminator_def)
  have 3: "replaceHeading ''### '' ''<h3>'' ''</h3>'' True (''<h2>'' @ t @ ''</h2>'')
      = ''<h2>'' @ t @ ''</h2>''"
    by (rule replaceHeading_inline [OF nt']) simp
  have i: "inlineText (''<h2>'' @ t @ ''</h2>'')"
    using assms by simp
  show ?thesis
    unfolding markdownToHtml_def 1 2 3 by (rule inline_passes_unchanged [OF i])
qed

lemma markdownToHtml_h3:
  assumes "inlineText t"
  shows "markdownToHtml (''### '' @ t) = ''<h3>'' @ t @ ''</h3>''"
proof -
  have nt: "\<forall>c\<in>set t. \<not> lineTerminator c"
    by (rule inlineText_no_terminator [OF assms])
  have nt0: "\<forall>c\<in>set (''### '' @ t). \<not> lineTerminator c"
    using nt by (auto simp: lineTerminator_def)
  have 1: "replaceHeading ''# '' ''<h1>'' ''</h1>'' True (''### '' @ t) = ''### '' @ t"
    by (rule replaceHeading_inline [OF nt0]) simp
  have 2: "replaceHeading ''## '' ''<h2>'' ''</h2>'' True (''### '' @ t) = ''### '' @ t"
    by (rule replaceHeading_inline [OF nt0]) simp
  have 3: "replaceHeading ''### '' ''<h3>'' ''</h3>'' True (''### '' @ t)
      = ''<h3>'' @ t @ ''</h3>''"
    by (rule replaceHeading_line [OF nt]) simp
  have i: "inlineText (''<h3>'' @ t @ ''</h3>'')"
    using assms by simp
  show ?thesis
    unfolding markdownToHtml_def 1 2 3 by (rule inline_passes_unchanged [OF i])
qed

lemma markdownToHtml_plain:
  assumes "inlineText t" and "\<not> startsWith t ''#''"
  shows "markdownToHtml t = t"
proof -
  have h: "replaceHeading ''### '' ''<h3>'' ''</h3>'' True
            (replaceHeading ''## '' ''<h2>'' ''</h2>'' True
              (replaceHeading ''# '' ''<h1>'' ''</h1>'' True t)) = t"
    by (rule headings_unchanged)
       (use assms in \<open>simp_all add: inlineText_no_terminator no_hash_start_plain\<close>)
  show ?thesis
    unfolding markdownToHtml_def h by (rule inline_passes_unchanged [OF assms(1)])
qed

lemma markdownToHtml_strong:
  assumes "inlineText pre" "inlineText t" "inlineText post" and "\<not> startsWith pre ''#''"
  shows "markdownToHtml (pre @ ''**'' @ t @ ''**'' @ post)
           = pre @ ''<strong>'' @ t @ ''</strong>'' @ post"
proof -
  let ?s = "pre @ ''**'' @ t @ ''**'' @ post"
  have nt: "\<forall>c\<in>set ?s. \<not> lineTerminator c"
    using inlineText_no_terminator [OF assms(1)] inlineText_no_terminator [OF assms(2)]
      inlineText_no_terminator [OF assms(3)]
    by (simp add: lineTerminator_def ball_Un)
  have ns: "\<not> startsWith ?s (CHR ''#'' # m)" for m
    using no_hash_start [OF assms(4), of "''*'' @ t @ ''**'' @ post" m] by simp
  have h: "replaceHeading ''### '' ''<h3>'' ''</h3>'' True
            (replaceHeading ''## '' ''<h2>'' ''</h2>'' True
              (replaceHeading ''# '' ''<h1>'' ''</h1>'' True ?s)) = ?s"
    by (rule headings_unchanged [OF nt]) (rule ns)+
  have star: "hd ''**'' \<notin> set pre" "hd ''**'' \<notin> set t" "hd ''**'' \<notin> set post"
    using assms(1,2,3) by (simp_all add: inlineText_no_star)
  have "replaceDelimited ''**'' ''<strong>'' ''</strong>'' ?s
      = pre @ replaceDelimited ''**'' ''<strong>'' ''</strong>'' (''**'' @ t @ ''**'' @ post)"
    by (rule replaceDelimited_copy [OF _ star(1)]) simp
  also have "\<dots> = pre @ ''<strong>'' @ t @ ''</strong>''
      @ replaceDelimited ''**'' ''<strong>'' ''</strong>'' post"
    using replaceDelimited_found [OF _ star(2) inlineText_no_terminator [OF assms(2)],
        of "''<strong>''" "''</strong>''" post]
    by simp
  also have "\<dots> = pre @ ''<strong>'' @ t @ ''</strong>'' @ post"
    using replaceDelimited_unchanged [OF _ star(3), of "''<strong>''" "''</strong>''"] by simp
  finally have s: "replaceDelimited ''**'' ''<strong>'' ''</strong>'' ?s
      = pre @ ''<strong>'' @ t @ ''</strong>'' @ post" .
  have i: "inlineText (pre @ ''<strong>'' @ t @ ''</strong>'' @ post)"
    using assms(1,2,3) by simp
  show ?thesis
    unfolding markdownToHtml_def h s
    by (simp only: em_strong_unchanged(1) [OF i]
        replaceNewline_unchanged [OF inlineText_no_newline [OF i]])
qed

lemma strong_pass_single_stars:
  assumes "inlineText t" "inlineText post"
  shows "replaceDelimited ''**'' opn cls (CHR ''*'' # t @ CHR ''*'' # post)
           = CHR ''*'' # t @ CHR ''*'' # post"
proof -
  have star: "hd ''**'' \<notin> set t" "hd ''**'' \<notin> set post"
    using assms by (simp_all add: inlineText_no_star)
  have tail: "replaceDelimited ''**'' opn cls (CHR ''*'' # post) = CHR ''*'' # post"
  proof -
    have "\<not> startsWith (CHR ''*'' # post) ''**''"
      using star(2) by (cases post) auto
    then show ?thesis
      using replaceDelimited_unchanged [OF _ star(2), of opn cls] by simp
  qed
  show ?thesis
  proof (cases t)
    case Nil
    have "lazyUntil ''**'' post = None"
      by (rule lazyUntil_none [OF _ star(2)]) simp
    then show ?thesis
      using tail by (simp add: Nil)
  next
    case (Cons x xs)
    then have x: "x \<noteq> CHR ''*''"
      using star(1) by auto
    have "replaceDelimited ''**'' opn cls (t @ CHR ''*'' # post)
        = t @ replaceDelimited ''**'' opn cls (CHR ''*'' # post)"
      by (rule replaceDelimited_copy [OF _ star(1)]) simp
    then show ?thesis
      using x tail by (simp add: Cons)
  qed
qed

lemma markdownToHtml_em:
  assumes "inlineText pre" "inlineText t" "inlineText post" and "\<not> startsWith pre ''#''"
  shows "markdownToHtml (pre @ ''*'' @ t @ ''*'' @ post) = pre @ ''<em>'' @ t @ ''</em>'' @ post"
proof -
  let ?s = "pre @ ''*'' @ t @ ''*'' @ post"
  have nt: "\<forall>c\<in>set ?s. \<not> lineTerminator c"
    using inlineText_no_terminator [OF assms(1)] inlineText_no_terminator [OF assms(2)]
      inlineText_no_terminator [OF assms(3)]
    by (simp add: lineTerminator_def ball_Un)
  have ns: "\<not> startsWith ?s (CHR ''#'' # m)" for m
    using no_hash_start [OF assms(4), of "t @ ''*'' @ post" m] by simp
  have h: "replaceHeading ''### '' ''<h3>'' ''</h3>'' True
            (replaceHeading ''## '' ''<h2>'' ''</h2>'' True
              (replaceHeading ''# '' ''<h1>'' ''</h1>'' True ?s)) = ?s"
    by (rule headings_unchanged [OF nt]) (rule ns)+
  have star: "hd ''**'' \<notin> set pre" "hd ''*'' \<notin> set pre" "hd ''*'' \<notin> set t"
    "hd ''*'' \<notin> set post"
    using assms(1,2,3) by (simp_all add: inlineText_no_star)
  have "replaceDelimited ''**'' ''<strong>'' ''</strong>'' ?s
      = pre @ replaceDelimited ''**'' ''<strong>'' ''</strong>'' (''*'' @ t @ ''*'' @ post)"
    by (rule replaceDelimited_copy [OF _ star(1)]) simp
  also have "\<dots> = ?s"
    using strong_pass_single_stars [OF assms(2,3), of "''<strong>''" "''</strong>''"] by simp
  finally have s: "replaceDelimited ''**'' ''<strong>'' ''</strong>'' ?s = ?s" .
  have "replaceDelimited ''*'' ''<em>'' ''</em>'' ?s
      = pre @ replaceDelimited ''*'' ''<em>'' ''</em>'' (''*'' @ t @ ''*'' @ post)"
    by (rule replaceDelimited_copy [OF _ star(2)]) simp
  also have "\<dots> = pre @ ''<em>'' @ t @ ''</em>'' @ replaceDelimited ''*'' ''<em>'' ''</em>'' post"
    using replaceDelimited_found [OF _ star(3) inlineText_no_terminator [OF assms(2)],
        of "''<em>''" "''</em>''" post]
    by simp
  also have "\<dots> = pre @ ''<em>'' @ t @ ''</em>'' @ post"
    using replaceDelimited_unchanged [OF _ star(4), of "''<em>''" "''</em>''"] by simp
  finally have e: "replaceDelimited ''*'' ''<em>'' ''</em>'' ?s
      = pre @ ''<em>'' @ t @ ''</em>'' @ post" .
  have i: "inlineText (pre @ ''<em>'' @ t @ ''</em>'' @ post)"
    using assms(1,2,3) by simp
  show ?thesis
    unfolding markdownToHtml_def h s e
    by (rule replaceNewline_unchanged [OF inlineText_no_newline [OF i]])
qed

text \<open>
  Claim C8. \<^verbatim>\<open>createSuccessResponse\<close> leaves the body as it is for json and markdown and
  applies \<^verbatim>\<open>markdownToHtml\<close> for html. The transform works line by line and turns every
  line feed into \<^verbatim>\<open><br>\<close>. On a line, with \<open>text\<close> a run of ordinary characters (no line
  terminator, no asterisk): a leading \<^verbatim>\<open>#\<close>, \<^verbatim>\<open>##\<close> or \<^verbatim>\<open>###\<close> with a space makes the
  rest of the line a heading of that depth, \<^verbatim>\<open>**text**\<close> becomes
  \<^verbatim>\<open><strong>text</strong>\<close> and \<^verbatim>\<open>*text*\<close> becomes \<^verbatim>\<open><em>text</em>\<close>, also inside
  ordinary text, and ordinary text stays as it is. In particular \<^verbatim>\<open># Title\<close> becomes
  \<^verbatim>\<open><h1>Title</h1>\<close> and \<^verbatim>\<open>**bold**\<close> becomes \<^verbatim>\<open><strong>bold</strong>\<close>.
\<close>

theorem html_transform:
  "content (createSuccessResponse body Json cacheStatus') = TextBody body
   \<and> content (createSuccessResponse body Markdown cacheStatus') = TextBody body
   \<and> content (createSuccessResponse body Html cacheStatus') = TextBody (markdownToHtml body)
   \<and> markdownToHtml (line @ CHR 0x0A # rest)
       = markdownToHtml line @ ''<br>'' @ markdownToHtml rest
   \<and> CHR 0x0A \<notin> set (markdownToHtml body)
   \<and> (inlineText t \<longrightarrow>
         markdownToHtml (''# '' @ t) = ''<h1>'' @ t @ ''</h1>''
       \<and> markdownToHtml (''## '' @ t) = ''<h2>'' @ t @ ''</h2>''
       \<and> markdownToHtml (''### '' @ t) = ''<h3>'' @ t @ ''</h3>'')
   \<and> (inlineText pre \<and> inlineText t \<and> inlineText post \<and> \<not> startsWith pre ''#'' \<longrightarrow>
         markdownToHtml (pre @ ''**'' @ t @ ''**'' @ post)
           = pre @ ''<strong>'' @ t @ ''</strong>'' @ post
       \<and> markdownToHtml (pre @ ''*'' @ t @ ''*'' @ post) = pre @ ''<em>'' @ t @ ''</em>'' @ post)
   \<and> (inlineText t \<and> \<not> startsWith t ''#'' \<longrightarrow> markdownToHtml t = t)
   \<and> markdownToHtml ''# Title'' = ''<h1>Title</h1>''
   \<and> markdownToHtml ''**bold**'' = ''<strong>bold</strong>''"
proof -
  have c: "content (createSuccessResponse body Json cacheStatus') = TextBody body"
    "content (createSuccessResponse body Markdown cacheStatus') = TextBody body"
    "content (createSuccessResponse body Html cacheStatus') = TextBody (markdownToHtml body)"
    by (simp_all add: createSuccessResponse_def)
  have n: "CHR 0x0A \<notin> set (markdownToHtml body)"
    unfolding markdownToHtml_def by (rule replaceNewline_no_newline)
  have title: "markdownToHtml ''# Title'' = ''<h1>Title</h1>''"
    using markdownToHtml_h1 [of "''Title''"] by simp
  have bold: "markdownToHtml ''**bold**'' = ''<strong>bold</strong>''"
    using markdownToHtml_strong [of "[]" "''bold''" "[]"] by simp
  show ?thesis
    using c n title bold markdownToHtml_newline [of line rest]
      markdownToHtml_h1 [of t] markdownToHtml_h2 [of t] markdownToHtml_h3 [of t]
      markdownToHtml_strong [of pre t post] markdownToHtml_em [of pre t post]
      markdownToHtml_plain [of t]
    by blast
qed

text \<open>The cases of the unit test, an emphasis inside a line, and two lines.\<close>

theorem html_transform_witness:
  "markdownToHtml ''# Header 1'' = ''<h1>Header 1</h1>''
   \<and> markdownToHtml ''## Header 2'' = ''<h2>Header 2</h2>''
   \<and> markdownToHtml ''### Header 3'' = ''<h3>Header 3</h3>''
   \<and> markdownToHtml ''**bold text**'' = ''<strong>bold text</strong>''
   \<and> markdownToHtml ''*italic text*'' = ''<em>italic text</em>''
   \<and> markdownToHtml ''a **b** c'' = ''a <strong>b</strong> c''
   \<and> markdownToHtml (''line 1'' @ CHR 0x0A # ''line 2'') = ''line 1<br>line 2''
   \<and> markdownToHtml (''## News'' @ CHR 0x0A # ''*now*'') = ''<h2>News</h2><br><em>now</em>''"
proof -
  note t = html_transform
  have h: "markdownToHtml ''# Header 1'' = ''<h1>Header 1</h1>''"
    "markdownToHtml ''## Header 2'' = ''<h2>Header 2</h2>''"
    "markdownToHtml ''### Header 3'' = ''<h3>Header 3</h3>''"
    "markdownToHtml ''## News'' = ''<h2>News</h2>''"
    using t [where t = "''Header 1''"] t [where t = "''Header 2''"]
      t [where t = "''Header 3''"] t [where t = "''News''"]
    by simp_all
  have s: "markdownToHtml ''**bold text**'' = ''<strong>bold text</strong>''"
    "markdownToHtml ''*italic text*'' = ''<em>italic text</em>''"
    "markdownToHtml ''*now*'' = ''<em>now</em>''"
    "markdownToHtml ''a **b** c'' = ''a <strong>b</strong> c''"
    using t [where pre = "[]" and t = "''bold text''" and post = "[]"]
      t [where pre = "[]" and t = "''italic text''" and post = "[]"]
      t [where pre = "[]" and t = "''now''" and post = "[]"]
      t [where pre = "''a ''" and t = "''b''" and post = "'' c''"]
    by simp_all
  have p: "markdownToHtml ''line 1'' = ''line 1''" "markdownToHtml ''line 2'' = ''line 2''"
    using t [where t = "''line 1''"] t [where t = "''line 2''"] by simp_all
  have l: "markdownToHtml (''line 1'' @ CHR 0x0A # ''line 2'') = ''line 1<br>line 2''"
    "markdownToHtml (''## News'' @ CHR 0x0A # ''*now*'') = ''<h2>News</h2><br><em>now</em>''"
    using t [where line = "''line 1''" and rest = "''line 2''"]
      t [where line = "''## News''" and rest = "''*now*''"]
    by (simp_all add: p h s)
  show ?thesis
    using h s l by simp
qed

end
